theory Spec2Isabelle
  imports Main "HOL-Library.AList" "HOL-Library.Sublist"
begin

section \<open>JavaScript values, objects and errors\<close>

text \<open>
  The walker of \<^verbatim>\<open>src/directives.ts\<close> works on plain JavaScript data. A JavaScript
  object whose keys are GraphQL names is modelled by the list of its own enumerable
  properties in insertion order, which is the order \<^verbatim>\<open>Object.keys\<close> reports.
  The assignment \<^verbatim>\<open>obj[k] = v\<close> overwrites the value of an existing key in place and
  appends a new key at the end.

  JavaScript numbers are kept abstract (type variable \<open>'n\<close>): the built-in functions
  \<^verbatim>\<open>parseInt(_, 10)\<close> and \<^verbatim>\<open>parseFloat\<close> are parameters of the model.
\<close>

datatype 'n js_value =
    JNull
  | JNumber 'n
  | JString string
  | JBoolean bool
  | JArray "'n js_value list"
  | JObject "(string \<times> 'n js_value) list"

fun js_set :: "string \<Rightarrow> 'v \<Rightarrow> (string \<times> 'v) list \<Rightarrow> (string \<times> 'v) list" where
  "js_set k v [] = [(k, v)]"
| "js_set k v (p # ps) = (if fst p = k then (k, v) # ps else p # js_set k v ps)"

definition js_get :: "(string \<times> 'v) list \<Rightarrow> string \<Rightarrow> 'v option" where
  "js_get obj k = map_of obj k"

definition hasOwn :: "(string \<times> 'v) list \<Rightarrow> string \<Rightarrow> bool" where
  "hasOwn obj k = (k \<in> set (map fst obj))"

definition keys :: "(string \<times> 'v) list \<Rightarrow> string list" where
  "keys obj = map fst obj"

text \<open>
  What the code can throw: the \<^verbatim>\<open>Error\<close> of \<^verbatim>\<open>valueFromASTUntyped\<close> (with its
  message), whatever the imported \<^verbatim>\<open>getArgumentValues\<close> throws (a \<^verbatim>\<open>GraphQLError\<close>,
  payload opaque), and the \<^verbatim>\<open>TypeError\<close> of a method call on \<^verbatim>\<open>undefined\<close>.
\<close>

datatype error =
    Error string
  | GraphQLError string
  | TypeError string

record 'n builtins =
  parseInt :: "string \<Rightarrow> 'n"
  parseFloat :: "string \<Rightarrow> 'n"

section \<open>Raw literals (\<^verbatim>\<open>ValueNode\<close>)\<close>

text \<open>
  \<^verbatim>\<open>ValueNode\<close> of graphql-js is a union of nine node types. Eight of them are handled
  by the \<^verbatim>\<open>switch\<close> of \<^verbatim>\<open>valueFromASTUntyped\<close>; the ninth, \<^verbatim>\<open>VariableNode\<close>,
  reaches the \<^verbatim>\<open>default\<close> branch.
\<close>

datatype value_node =
    NullValue
  | IntValue string
  | FloatValue string
  | StringValue string
  | EnumValue string
  | BooleanValue bool
  | ListValue "value_node list"
  | ObjectValue "(string \<times> value_node) list"
  | Variable string

fun kind :: "value_node \<Rightarrow> string" where
  "kind NullValue = ''NullValue''"
| "kind (IntValue _) = ''IntValue''"
| "kind (FloatValue _) = ''FloatValue''"
| "kind (StringValue _) = ''StringValue''"
| "kind (EnumValue _) = ''EnumValue''"
| "kind (BooleanValue _) = ''BooleanValue''"
| "kind (ListValue _) = ''ListValue''"
| "kind (ObjectValue _) = ''ObjectValue''"
| "kind (Variable _) = ''Variable''"

text \<open>
  \<^verbatim>\<open>valueFromASTUntyped\<close> (directives.ts, lines 439-465). \<^verbatim>\<open>values.map(...)\<close> is
  \<open>valueFromASTUntyped_values\<close>, the \<^verbatim>\<open>fields.forEach\<close> loop that fills \<^verbatim>\<open>obj\<close>
  is \<open>valueFromASTUntyped_fields\<close> (its first argument is \<^verbatim>\<open>obj\<close> so far). An
  exception thrown by a recursive call leaves both of them at once.
\<close>

fun valueFromASTUntyped :: "'n builtins \<Rightarrow> value_node \<Rightarrow> error + 'n js_value"
  and valueFromASTUntyped_values :: "'n builtins \<Rightarrow> value_node list \<Rightarrow> error + 'n js_value list"
  and valueFromASTUntyped_fields ::
    "'n builtins \<Rightarrow> (string \<times> 'n js_value) list \<Rightarrow> (string \<times> value_node) list
      \<Rightarrow> error + (string \<times> 'n js_value) list"
where
  "valueFromASTUntyped B NullValue = Inr JNull"
| "valueFromASTUntyped B (IntValue s) = Inr (JNumber (parseInt B s))"
| "valueFromASTUntyped B (FloatValue s) = Inr (JNumber (parseFloat B s))"
| "valueFromASTUntyped B (StringValue s) = Inr (JString s)"
| "valueFromASTUntyped B (EnumValue s) = Inr (JString s)"
| "valueFromASTUntyped B (BooleanValue b) = Inr (JBoolean b)"
| "valueFromASTUntyped B (ListValue vs) =
     (case valueFromASTUntyped_values B vs of
        Inl e \<Rightarrow> Inl e
      | Inr xs \<Rightarrow> Inr (JArray xs))"
| "valueFromASTUntyped B (ObjectValue fs) =
     (case valueFromASTUntyped_fields B [] fs of
        Inl e \<Rightarrow> Inl e
      | Inr obj \<Rightarrow> Inr (JObject obj))"
| "valueFromASTUntyped B (Variable x) =
     Inl (Error (''Unexpected value kind: '' @ kind (Variable x)))"
| "valueFromASTUntyped_values B [] = Inr []"
| "valueFromASTUntyped_values B (v # vs) =
     (case valueFromASTUntyped B v of
        Inl e \<Rightarrow> Inl e
      | Inr x \<Rightarrow>
          (case valueFromASTUntyped_values B vs of
             Inl e \<Rightarrow> Inl e
           | Inr xs \<Rightarrow> Inr (x # xs)))"
| "valueFromASTUntyped_fields B obj [] = Inr obj"
| "valueFromASTUntyped_fields B obj (f # fs) =
     (case valueFromASTUntyped B (snd f) of
        Inl e \<Rightarrow> Inl e
      | Inr x \<Rightarrow> valueFromASTUntyped_fields B (js_set (fst f) x obj) fs)"


section \<open>Handler classes and the capability query\<close>

text \<open>
  \<^verbatim>\<open>DirectiveLocation\<close> values named by \<^verbatim>\<open>methodToLocationMap\<close>
  (directives.ts, lines 403-417).
\<close>

datatype directive_location =
    SCHEMA | SCALAR | OBJECT | FIELD_DEFINITION | ARGUMENT_DEFINITION | INTERFACE
  | UNION | ENUM | ENUM_VALUE | INPUT_OBJECT | INPUT_FIELD_DEFINITION

definition methodToLocationMap :: "(string \<times> directive_location) list" where
  "methodToLocationMap =
    [(''visitSchema'', SCHEMA),
     (''visitScalar'', SCALAR),
     (''visitObject'', OBJECT),
     (''visitFieldDefinition'', FIELD_DEFINITION),
     (''visitArgumentDefinition'', ARGUMENT_DEFINITION),
     (''visitInterface'', INTERFACE),
     (''visitUnion'', UNION),
     (''visitEnum'', ENUM),
     (''visitEnumValue'', ENUM_VALUE),
     (''visitInputObject'', INPUT_OBJECT),
     (''visitInputFieldDefinition'', INPUT_FIELD_DEFINITION)]"

text \<open>
  A function value is known by its identity: \<open>Stub k\<close> is the empty method
  \<^verbatim>\<open>SchemaDirectiveVisitor.prototype[k]\<close>, \<open>Method i\<close> is any other function.

  A class is the base class or a subclass: its name (the identity of the class), the
  class it extends, and the own enumerable properties of its prototype in definition
  order. Method lookup \<^verbatim>\<open>this.prototype[key]\<close> and the read of the static property
  \<^verbatim>\<open>this.locations\<close> both follow the inheritance chain, as JavaScript does for
  \<^verbatim>\<open>class B extends A\<close>; \<^verbatim>\<open>for (key in this.prototype)\<close> lists the own
  properties first, then the inherited ones that are not shadowed. Of the base
  prototype only the eleven visitor methods are listed: \<^verbatim>\<open>shouldCall\<close> tests the
  method name against \<^verbatim>\<open>methodToLocationMap\<close> before it looks at the prototype.
\<close>

datatype js_function = Stub string | Method nat

datatype visitor_class =
    SchemaDirectiveVisitor
  | Subclass string visitor_class "(string \<times> js_function) list"

fun prototype_get :: "visitor_class \<Rightarrow> string \<Rightarrow> js_function option" where
  "prototype_get SchemaDirectiveVisitor key =
     (if hasOwn methodToLocationMap key then Some (Stub key) else None)"
| "prototype_get (Subclass n parent own) key =
     (case js_get own key of
        Some f \<Rightarrow> Some f
      | None \<Rightarrow> prototype_get parent key)"

fun prototype_keys :: "visitor_class \<Rightarrow> string list" where
  "prototype_keys SchemaDirectiveVisitor = keys methodToLocationMap"
| "prototype_keys (Subclass n parent own) =
     keys own @ filter (\<lambda>key. key \<notin> set (keys own)) (prototype_keys parent)"

definition visitorMethodStubSet :: "js_function list" where
  "visitorMethodStubSet = map (\<lambda>key. Stub key) (keys methodToLocationMap)"

text \<open>\<^verbatim>\<open>shouldCall\<close> (directives.ts, lines 326-329); \<open>None\<close> is \<^verbatim>\<open>undefined\<close>.\<close>

definition shouldCall :: "visitor_class \<Rightarrow> string \<Rightarrow> bool" where
  "shouldCall this methodName =
     (hasOwn methodToLocationMap methodName \<and>
      (case prototype_get this methodName of
         None \<Rightarrow> True
       | Some f \<Rightarrow> f \<notin> set visitorMethodStubSet))"

text \<open>
  The static property \<^verbatim>\<open>locations\<close>: the store maps a class to the array assigned to
  its own property. The base class is declared with \<^verbatim>\<open>locations = null\<close>, so a class
  without an assigned array up to the base reads \<^verbatim>\<open>null\<close> (\<open>None\<close>).
\<close>

type_synonym statics = "visitor_class \<rightharpoonup> directive_location list"

fun read_locations :: "statics \<Rightarrow> visitor_class \<Rightarrow> directive_location list option" where
  "read_locations S SchemaDirectiveVisitor = S SchemaDirectiveVisitor"
| "read_locations S (Subclass n parent own) =
     (case S (Subclass n parent own) of
        Some ls \<Rightarrow> Some ls
      | None \<Rightarrow> read_locations S parent)"

text \<open>
  \<^verbatim>\<open>getLocations\<close> (directives.ts, lines 383-394). The loop pushes
  \<^verbatim>\<open>methodToLocationMap[key]\<close> for every enumerated key that \<^verbatim>\<open>shouldCall\<close> accepts;
  such a key is in the table.
\<close>

definition getLocations_loop :: "visitor_class \<Rightarrow> directive_location list" where
  "getLocations_loop this =
     fold (\<lambda>key locations.
             if shouldCall this key
             then (case js_get methodToLocationMap key of
                     Some l \<Rightarrow> locations @ [l]
                   | None \<Rightarrow> locations)
             else locations)
          (prototype_keys this) []"

definition getLocations :: "visitor_class \<Rightarrow> statics \<Rightarrow> directive_location list \<times> statics" where
  "getLocations this S =
     (case read_locations S this of
        None \<Rightarrow> (getLocations_loop this, S(this \<mapsto> getLocations_loop this))
      | Some ls \<Rightarrow> (ls, S))"

text \<open>
  The second copy of the class (\<^verbatim>\<open>src/unnamed/part_000\<close>, lines 362-377) inlines the
  test and adds \<^verbatim>\<open>typeof method === 'function'\<close>, which holds of every \<open>js_function\<close>.
\<close>

definition getLocations_loop_part000 :: "visitor_class \<Rightarrow> directive_location list" where
  "getLocations_loop_part000 this =
     fold (\<lambda>key locations.
             if hasOwn methodToLocationMap key
             then (case prototype_get this key of
                     Some method \<Rightarrow>
                       if method \<notin> set visitorMethodStubSet
                       then (case js_get methodToLocationMap key of
                               Some l \<Rightarrow> locations @ [l]
                             | None \<Rightarrow> locations)
                       else locations
                   | None \<Rightarrow> locations)
             else locations)
          (prototype_keys this) []"

definition getLocations_part000 ::
  "visitor_class \<Rightarrow> statics \<Rightarrow> directive_location list \<times> statics" where
  "getLocations_part000 this S =
     (case read_locations S this of
        None \<Rightarrow> (getLocations_loop_part000 this, S(this \<mapsto> getLocations_loop_part000 this))
      | Some ls \<Rightarrow> (ls, S))"


section \<open>The schema graph\<close>

text \<open>
  The parts of the graphql-js schema objects that the walker reads. An AST node is
  kept as its \<^verbatim>\<open>directives\<close> property (which may be \<^verbatim>\<open>undefined\<close>); a directive
  node as \<^verbatim>\<open>name.value\<close> and its argument nodes (\<^verbatim>\<open>name.value\<close>, \<^verbatim>\<open>value\<close>).
  \<^verbatim>\<open>getFields()\<close> and \<^verbatim>\<open>getTypeMap()\<close> return objects keyed by name,
  \<^verbatim>\<open>getValues()\<close> and \<^verbatim>\<open>getTypes()\<close> return arrays. An object type and an interface
  type have the same shape and differ by their constructor in \<open>named_type\<close>.
\<close>

record directive_node =
  dn_name :: string
  dn_arguments :: "(string \<times> value_node) list"

record ast_node =
  directives :: "directive_node list option"

datatype type_ref = NamedTypeRef string | ListTypeRef type_ref | NonNullTypeRef type_ref

record 'n graphql_argument =
  arg_name :: string
  arg_type :: type_ref
  arg_defaultValue :: "'n js_value option"
  arg_astNode :: "ast_node option"

record 'n graphql_field =
  field_name :: string
  field_args :: "'n graphql_argument list option"
  field_astNode :: "ast_node option"

record graphql_input_field =
  input_field_name :: string
  input_field_astNode :: "ast_node option"

record graphql_enum_value =
  enum_value_name :: string
  enum_value_astNode :: "ast_node option"

record scalar_type =
  scalar_name :: string
  scalar_astNode :: "ast_node option"

record 'n object_type =
  object_name :: string
  object_astNode :: "ast_node option"
  object_fields :: "(string \<times> 'n graphql_field) list"

record 'n union_type =
  union_name :: string
  union_astNode :: "ast_node option"
  union_types :: "'n object_type list"

record enum_type =
  enum_name :: string
  enum_astNode :: "ast_node option"
  enum_values :: "graphql_enum_value list"

record input_object_type =
  input_object_name :: string
  input_object_astNode :: "ast_node option"
  input_object_fields :: "(string \<times> graphql_input_field) list"

datatype 'n named_type =
    GraphQLObjectType "'n object_type"
  | GraphQLInterfaceType "'n object_type"
  | GraphQLInputObjectType input_object_type
  | GraphQLScalarType scalar_type
  | GraphQLUnionType "'n union_type"
  | GraphQLEnumType enum_type

record 'n graphql_directive =
  directive_name :: string
  directive_args :: "'n graphql_argument list"

record 'n graphql_schema =
  schema_astNode :: "ast_node option"
  schema_typeMap :: "(string \<times> 'n named_type) list"
  schema_directives :: "'n graphql_directive list"

datatype 'n visitable =
    VSchema "'n graphql_schema"
  | VNamedType "'n named_type"
  | VField "'n graphql_field"
  | VArgument "'n graphql_argument"
  | VInputField graphql_input_field
  | VEnumValue graphql_enum_value

fun astNode :: "'n visitable \<Rightarrow> ast_node option" where
  "astNode (VSchema s) = schema_astNode s"
| "astNode (VNamedType (GraphQLObjectType t)) = object_astNode t"
| "astNode (VNamedType (GraphQLInterfaceType t)) = object_astNode t"
| "astNode (VNamedType (GraphQLInputObjectType t)) = input_object_astNode t"
| "astNode (VNamedType (GraphQLScalarType t)) = scalar_astNode t"
| "astNode (VNamedType (GraphQLUnionType t)) = union_astNode t"
| "astNode (VNamedType (GraphQLEnumType t)) = enum_astNode t"
| "astNode (VField f) = field_astNode f"
| "astNode (VArgument a) = arg_astNode a"
| "astNode (VInputField f) = input_field_astNode f"
| "astNode (VEnumValue v) = enum_value_astNode v"

text \<open>
  \<^verbatim>\<open>type.astNode && type.astNode.directives\<close>: \<open>None\<close> when it is falsy. An empty
  array is truthy.
\<close>

definition directiveNodes :: "'n visitable \<Rightarrow> directive_node list option" where
  "directiveNodes type =
     (case astNode type of
        None \<Rightarrow> None
      | Some node \<Rightarrow> directives node)"

text \<open>The second parameter of a visitor method (\<^verbatim>\<open>additionalArgs\<close>).\<close>

datatype 'n details =
    NoDetails
  | ObjectTypeDetails "'n named_type"
  | FieldDetails "'n graphql_field" "'n named_type"
  | EnumTypeDetails "'n named_type"

section \<open>Visitor instances and the state of a walk\<close>

record 'n visitor =
  constructor :: visitor_class
  name :: string
  args :: "(string \<times> 'n js_value) list"
  visitedType :: "'n visitable"
  schema :: "'n graphql_schema"

text \<open>
  What a walk does to the outside is recorded as a trace: the construction of a visitor
  (\<^verbatim>\<open>new visitorClass(...)\<close>), the call of a visitor method on it
  (\<^verbatim>\<open>d[methodName](type, ...additionalArgs)\<close>), and, for reference, every call of
  \<^verbatim>\<open>getVisitors\<close>. The bodies of constructors and visitor methods belong to the caller:
  the model takes them to return normally and to leave the schema as it is.
\<close>

datatype 'n event =
    GetVisitors string "'n visitable"
  | Construct "'n visitor"
  | Dispatch string "'n visitor" "'n visitable" "'n details"

record 'n walk_state =
  createdVisitors :: "(string \<times> 'n visitor list) list"
  trace :: "'n event list"

text \<open>
  The variables that the helpers inside \<^verbatim>\<open>visitSchema\<close> close over, with the
  imported \<^verbatim>\<open>getArgumentValues\<close> of graphql-js and the built-in number parsers.
\<close>

record 'n env =
  builtins :: "'n builtins"
  getArgumentValues ::
    "'n graphql_directive \<Rightarrow> directive_node \<Rightarrow> error + (string \<times> 'n js_value) list"
  the_schema :: "'n graphql_schema"
  directiveVisitors :: "(string \<times> visitor_class) list"
  declaredDirectives :: "(string \<times> 'n graphql_directive) list"

definition emit :: "'n event list \<Rightarrow> 'n walk_state \<Rightarrow> 'n walk_state" where
  "emit es st = st\<lparr>trace := trace st @ es\<rparr>"

text \<open>
  \<^verbatim>\<open>Array.prototype.forEach\<close> with a callback that changes the state and may throw;
  \<^verbatim>\<open>each\<close> (directives.ts, lines 428-435) visits the properties of an object in key
  order.
\<close>

fun forEach :: "('a \<Rightarrow> 's \<Rightarrow> (error + unit) \<times> 's) \<Rightarrow> 'a list \<Rightarrow> 's \<Rightarrow> (error + unit) \<times> 's" where
  "forEach callback [] st = (Inr (), st)"
| "forEach callback (x # xs) st =
     (case callback x st of
        (Inl e, st1) \<Rightarrow> (Inl e, st1)
      | (Inr _, st1) \<Rightarrow> forEach callback xs st1)"

definition each ::
  "(string \<times> 'v) list \<Rightarrow> ('v \<Rightarrow> string \<Rightarrow> 's \<Rightarrow> (error + unit) \<times> 's) \<Rightarrow> 's \<Rightarrow> (error + unit) \<times> 's" where
  "each obj callback = forEach (\<lambda>(key, v). callback v key) obj"

section \<open>\<^verbatim>\<open>getVisitors\<close> and \<^verbatim>\<open>callVisitorMethods\<close>\<close>

text \<open>
  The untyped branch of \<^verbatim>\<open>getVisitors\<close> (lines 290-293): \<^verbatim>\<open>args\<close> starts empty and
  every argument node assigns its decoded value under its name.
\<close>

fun arguments_forEach ::
  "'n builtins \<Rightarrow> (string \<times> 'n js_value) list \<Rightarrow> (string \<times> value_node) list
    \<Rightarrow> error + (string \<times> 'n js_value) list" where
  "arguments_forEach B args' [] = Inr args'"
| "arguments_forEach B args' (arg # rest) =
     (case valueFromASTUntyped B (snd arg) of
        Inl e \<Rightarrow> Inl e
      | Inr x \<Rightarrow> arguments_forEach B (js_set (fst arg) x args') rest)"

text \<open>Lines 279-294: the arguments of one directive node, typed or untyped.\<close>

definition directive_args_of :: "'n env \<Rightarrow> directive_node \<Rightarrow> error + (string \<times> 'n js_value) list" where
  "directive_args_of env directiveNode =
     (case js_get (declaredDirectives env) (dn_name directiveNode) of
        Some decl \<Rightarrow> getArgumentValues env decl directiveNode
      | None \<Rightarrow> arguments_forEach (builtins env) [] (dn_arguments directiveNode))"

text \<open>
  The loop \<^verbatim>\<open>directiveNodes.forEach\<close> of \<^verbatim>\<open>getVisitors\<close> (lines 265-307), with the
  array \<^verbatim>\<open>visitors\<close> so far. \<^verbatim>\<open>hasOwn.call(directiveVisitors, directiveName)\<close> and the
  read \<^verbatim>\<open>directiveVisitors[directiveName]\<close> are one lookup.
\<close>

fun directiveNodes_forEach ::
  "'n env \<Rightarrow> 'n visitable \<Rightarrow> string \<Rightarrow> directive_node list \<Rightarrow> 'n visitor list
    \<Rightarrow> 'n walk_state \<Rightarrow> (error + 'n visitor list) \<times> 'n walk_state" where
  "directiveNodes_forEach env type methodName [] visitors st = (Inr visitors, st)"
| "directiveNodes_forEach env type methodName (directiveNode # rest) visitors st =
     (case js_get (directiveVisitors env) (dn_name directiveNode) of
        None \<Rightarrow> directiveNodes_forEach env type methodName rest visitors st
      | Some visitorClass \<Rightarrow>
          if \<not> shouldCall visitorClass methodName
          then directiveNodes_forEach env type methodName rest visitors st
          else
            (case directive_args_of env directiveNode of
               Inl e \<Rightarrow> (Inl e, st)
             | Inr args' \<Rightarrow>
                 let v = \<lparr>constructor = visitorClass, name = dn_name directiveNode,
                          args = args', visitedType = type, schema = the_schema env\<rparr>
                 in directiveNodes_forEach env type methodName rest (visitors @ [v])
                      (emit [Construct v] st)))"

text \<open>
  Lines 309-313: \<^verbatim>\<open>createdVisitors[visitor.name].push(visitor)\<close>. A push on a name
  that is not a key of \<^verbatim>\<open>createdVisitors\<close> is a call on \<^verbatim>\<open>undefined\<close>.
\<close>

fun createdVisitors_push :: "'n visitor list \<Rightarrow> 'n walk_state \<Rightarrow> (error + unit) \<times> 'n walk_state" where
  "createdVisitors_push [] st = (Inr (), st)"
| "createdVisitors_push (v # vs) st =
     (case js_get (createdVisitors st) (name v) of
        None \<Rightarrow> (Inl (TypeError ''Cannot read property 'push' of undefined''), st)
      | Some created \<Rightarrow>
          createdVisitors_push vs
            (st\<lparr>createdVisitors := js_set (name v) (created @ [v]) (createdVisitors st)\<rparr>))"

definition getVisitors ::
  "'n env \<Rightarrow> 'n visitable \<Rightarrow> string \<Rightarrow> 'n walk_state \<Rightarrow> (error + 'n visitor list) \<times> 'n walk_state" where
  "getVisitors env type methodName st =
     (let st0 = emit [GetVisitors methodName type] st in
      case directiveNodes type of
        None \<Rightarrow> (Inr [], st0)
      | Some nodes \<Rightarrow>
          (case directiveNodes_forEach env type methodName nodes [] st0 of
             (Inl e, st1) \<Rightarrow> (Inl e, st1)
           | (Inr visitors, st1) \<Rightarrow>
               if length visitors > 0
               then (case createdVisitors_push visitors st1 of
                       (Inl e, st2) \<Rightarrow> (Inl e, st2)
                     | (Inr _, st2) \<Rightarrow> (Inr visitors, st2))
               else (Inr visitors, st1)))"

definition callVisitorMethods ::
  "'n env \<Rightarrow> string \<Rightarrow> 'n visitable \<Rightarrow> 'n details \<Rightarrow> 'n walk_state \<Rightarrow> (error + unit) \<times> 'n walk_state" where
  "callVisitorMethods env methodName type additionalArgs st =
     (case getVisitors env type methodName st of
        (Inl e, st1) \<Rightarrow> (Inl e, st1)
      | (Inr visitors, st1) \<Rightarrow>
          (Inr (), emit (map (\<lambda>d. Dispatch methodName d type additionalArgs) visitors) st1))"


section \<open>The walk\<close>

text \<open>
  \<^verbatim>\<open>visitFields\<close> (directives.ts, lines 211-241); \<^verbatim>\<open>type\<close> is an object type or an
  interface type.
\<close>

fun getFields :: "'n named_type \<Rightarrow> (string \<times> 'n graphql_field) list" where
  "getFields (GraphQLObjectType t) = object_fields t"
| "getFields (GraphQLInterfaceType t) = object_fields t"
| "getFields _ = []"

definition visitFields :: "'n env \<Rightarrow> 'n named_type \<Rightarrow> 'n walk_state \<Rightarrow> (error + unit) \<times> 'n walk_state" where
  "visitFields env type =
     each (getFields type) (\<lambda>field _ st.
       case callVisitorMethods env ''visitFieldDefinition'' (VField field)
              (ObjectTypeDetails type) st of
         (Inl e, st1) \<Rightarrow> (Inl e, st1)
       | (Inr _, st1) \<Rightarrow>
           (case field_args field of
              None \<Rightarrow> (Inr (), st1)
            | Some field_args' \<Rightarrow>
                forEach (\<lambda>arg. callVisitorMethods env ''visitArgumentDefinition'' (VArgument arg)
                                 (FieldDetails field type))
                  field_args' st1))"

text \<open>
  \<^verbatim>\<open>visit\<close> (lines 147-209). The chain of \<^verbatim>\<open>instanceof\<close> tests is the case
  distinction on the node; a field, an argument or an enum value matches no test.
  \<open>visit_typeMap\<close> is the loop \<^verbatim>\<open>each(type.getTypeMap(), ...)\<close> with its recursive
  call of \<^verbatim>\<open>visit\<close>; \<^verbatim>\<open>typeName.startsWith('__')\<close> is \<open>prefix ''__'' typeName\<close>.
\<close>

function visit :: "'n env \<Rightarrow> 'n visitable \<Rightarrow> 'n walk_state \<Rightarrow> (error + unit) \<times> 'n walk_state"
  and visit_typeMap ::
    "'n env \<Rightarrow> (string \<times> 'n named_type) list \<Rightarrow> 'n walk_state \<Rightarrow> (error + unit) \<times> 'n walk_state"
where
  "visit env (VSchema s) st =
     (case callVisitorMethods env ''visitSchema'' (VSchema s) NoDetails st of
        (Inl e, st1) \<Rightarrow> (Inl e, st1)
      | (Inr _, st1) \<Rightarrow> visit_typeMap env (schema_typeMap s) st1)"
| "visit env (VNamedType (GraphQLObjectType t)) st =
     (case callVisitorMethods env ''visitObject'' (VNamedType (GraphQLObjectType t)) NoDetails st of
        (Inl e, st1) \<Rightarrow> (Inl e, st1)
      | (Inr _, st1) \<Rightarrow> visitFields env (GraphQLObjectType t) st1)"
| "visit env (VNamedType (GraphQLInterfaceType t)) st =
     (case callVisitorMethods env ''visitInterface'' (VNamedType (GraphQLInterfaceType t))
             NoDetails st of
        (Inl e, st1) \<Rightarrow> (Inl e, st1)
      | (Inr _, st1) \<Rightarrow> visitFields env (GraphQLInterfaceType t) st1)"
| "visit env (VNamedType (GraphQLInputObjectType t)) st =
     (case callVisitorMethods env ''visitInputObject'' (VNamedType (GraphQLInputObjectType t))
             NoDetails st of
        (Inl e, st1) \<Rightarrow> (Inl e, st1)
      | (Inr _, st1) \<Rightarrow>
          each (input_object_fields t)
            (\<lambda>field _. callVisitorMethods env ''visitInputFieldDefinition'' (VInputField field)
                          (ObjectTypeDetails (GraphQLInputObjectType t)))
            st1)"
| "visit env (VNamedType (GraphQLScalarType t)) st =
     callVisitorMethods env ''visitScalar'' (VNamedType (GraphQLScalarType t)) NoDetails st"
| "visit env (VNamedType (GraphQLUnionType t)) st =
     callVisitorMethods env ''visitUnion'' (VNamedType (GraphQLUnionType t)) NoDetails st"
| "visit env (VNamedType (GraphQLEnumType t)) st =
     (case callVisitorMethods env ''visitEnum'' (VNamedType (GraphQLEnumType t)) NoDetails st of
        (Inl e, st1) \<Rightarrow> (Inl e, st1)
      | (Inr _, st1) \<Rightarrow>
          forEach (\<lambda>v. callVisitorMethods env ''visitEnumValue'' (VEnumValue v)
                         (EnumTypeDetails (GraphQLEnumType t)))
            (enum_values t) st1)"
| "visit env (VField f) st = (Inr (), st)"
| "visit env (VArgument a) st = (Inr (), st)"
| "visit env (VInputField f) st = (Inr (), st)"
| "visit env (VEnumValue v) st = (Inr (), st)"
| "visit_typeMap env [] st = (Inr (), st)"
| "visit_typeMap env ((typeName, namedType) # rest) st =
     (if \<not> prefix ''__'' typeName
      then (case visit env (VNamedType namedType) st of
              (Inl e, st1) \<Rightarrow> (Inl e, st1)
            | (Inr _, st1) \<Rightarrow> visit_typeMap env rest st1)
      else visit_typeMap env rest st)"
  by pat_completeness auto
termination
  by (relation "measure (\<lambda>x. case x of
        Inl (env, type, st) \<Rightarrow> (case type of VSchema s \<Rightarrow> length (schema_typeMap s) + 2 | _ \<Rightarrow> 0)
      | Inr (env, typeMap, st) \<Rightarrow> length typeMap + 1)") auto

text \<open>
  \<^verbatim>\<open>SchemaDirectiveVisitor.visitSchema\<close> (lines 109-322): \<open>visitSchema_env\<close> holds
  \<^verbatim>\<open>declaredDirectives\<close> as filled from \<^verbatim>\<open>schema.getDirectives()\<close> (lines 130-135),
  \<open>visitSchema_start\<close> the initial \<^verbatim>\<open>createdVisitors\<close> (lines 139-144). The result is
  the returned \<^verbatim>\<open>createdVisitors\<close> or the exception that left the method, with the
  trace of what had happened by then.
\<close>

definition visitSchema_env ::
  "'n builtins
    \<Rightarrow> ('n graphql_directive \<Rightarrow> directive_node \<Rightarrow> error + (string \<times> 'n js_value) list)
    \<Rightarrow> 'n graphql_schema \<Rightarrow> (string \<times> visitor_class) list \<Rightarrow> 'n env" where
  "visitSchema_env B getArgumentValues' schema' directiveVisitors' =
     \<lparr>builtins = B, getArgumentValues = getArgumentValues',
      the_schema = schema', directiveVisitors = directiveVisitors',
      declaredDirectives =
        fold (\<lambda>decl obj. js_set (directive_name decl) decl obj) (schema_directives schema') []\<rparr>"

definition visitSchema_start :: "(string \<times> visitor_class) list \<Rightarrow> 'n walk_state" where
  "visitSchema_start directiveVisitors' =
     \<lparr>createdVisitors =
        fold (\<lambda>directiveName obj. js_set directiveName [] obj) (keys directiveVisitors') [],
      trace = []\<rparr>"

definition visitSchema ::
  "'n builtins
    \<Rightarrow> ('n graphql_directive \<Rightarrow> directive_node \<Rightarrow> error + (string \<times> 'n js_value) list)
    \<Rightarrow> 'n graphql_schema \<Rightarrow> (string \<times> visitor_class) list
    \<Rightarrow> (error + (string \<times> 'n visitor list) list) \<times> 'n event list" where
  "visitSchema B getArgumentValues' schema' directiveVisitors' =
     (case visit (visitSchema_env B getArgumentValues' schema' directiveVisitors')
             (VSchema schema') (visitSchema_start directiveVisitors') of
        (Inl e, st) \<Rightarrow> (Inl e, trace st)
      | (Inr _, st) \<Rightarrow> (Inr (createdVisitors st), trace st))"

section \<open>The second copy: \<^verbatim>\<open>getDirectives\<close>\<close>

text \<open>
  \<^verbatim>\<open>getDirectives\<close> of \<^verbatim>\<open>src/unnamed/part_000\<close> (lines 257-302) is the resolver of the
  second copy of the class. It takes no method name, keeps no index of created
  visitors, and has no test between the lookup of the class and the arguments.
\<close>

fun directiveNodes_forEach_part000 ::
  "'n env \<Rightarrow> 'n visitable \<Rightarrow> directive_node list \<Rightarrow> 'n visitor list
    \<Rightarrow> 'n walk_state \<Rightarrow> (error + 'n visitor list) \<times> 'n walk_state" where
  "directiveNodes_forEach_part000 env type [] directiveInstances st = (Inr directiveInstances, st)"
| "directiveNodes_forEach_part000 env type (directiveNode # rest) directiveInstances st =
     (case js_get (directiveVisitors env) (dn_name directiveNode) of
        None \<Rightarrow> directiveNodes_forEach_part000 env type rest directiveInstances st
      | Some directiveClass \<Rightarrow>
          (case directive_args_of env directiveNode of
             Inl e \<Rightarrow> (Inl e, st)
           | Inr args' \<Rightarrow>
               let v = \<lparr>constructor = directiveClass, name = dn_name directiveNode,
                        args = args', visitedType = type, schema = the_schema env\<rparr>
               in directiveNodes_forEach_part000 env type rest (directiveInstances @ [v])
                    (emit [Construct v] st)))"

definition getDirectives ::
  "'n env \<Rightarrow> 'n visitable \<Rightarrow> 'n walk_state \<Rightarrow> (error + 'n visitor list) \<times> 'n walk_state" where
  "getDirectives env type st =
     (case directiveNodes type of
        None \<Rightarrow> (Inr [], st)
      | Some nodes \<Rightarrow> directiveNodes_forEach_part000 env type nodes [] st)"


section \<open>The imported argument coercion\<close>

text \<open>
  Modelled from the spec: \<^verbatim>\<open>getArgumentValues\<close> is imported from
  \<^verbatim>\<open>graphql/execution/values\<close> and is not part of the sources. Section 4.3 of the
  specification describes its typed mode: for each declared parameter, a raw literal that
  the occurrence supplies is coerced through the declared type; otherwise the declared
  default is used if present, or the parameter is omitted or set to null by the type's
  own rule. The coercion of a type (\<open>coerce\<close>) and its rule for a missing parameter
  (\<open>missing\<close>: omit, bind a value, or reject) are parameters; the supplied literal of a
  name is the last one of that name.
\<close>

fun getArgumentValues_loop ::
  "(type_ref \<Rightarrow> value_node \<Rightarrow> error + 'n js_value)
    \<Rightarrow> (type_ref \<Rightarrow> error + 'n js_value option)
    \<Rightarrow> (string \<times> value_node) list \<Rightarrow> (string \<times> 'n js_value) list
    \<Rightarrow> 'n graphql_argument list \<Rightarrow> error + (string \<times> 'n js_value) list" where
  "getArgumentValues_loop coerce missing supplied coercedValues [] = Inr coercedValues"
| "getArgumentValues_loop coerce missing supplied coercedValues (argDef # rest) =
     (case js_get supplied (arg_name argDef) of
        Some valueNode \<Rightarrow>
          (case coerce (arg_type argDef) valueNode of
             Inl e \<Rightarrow> Inl e
           | Inr x \<Rightarrow>
               getArgumentValues_loop coerce missing supplied
                 (js_set (arg_name argDef) x coercedValues) rest)
      | None \<Rightarrow>
          (case arg_defaultValue argDef of
             Some x \<Rightarrow>
               getArgumentValues_loop coerce missing supplied
                 (js_set (arg_name argDef) x coercedValues) rest
           | None \<Rightarrow>
               (case missing (arg_type argDef) of
                  Inl e \<Rightarrow> Inl e
                | Inr None \<Rightarrow> getArgumentValues_loop coerce missing supplied coercedValues rest
                | Inr (Some x) \<Rightarrow>
                    getArgumentValues_loop coerce missing supplied
                      (js_set (arg_name argDef) x coercedValues) rest)))"

definition getArgumentValues_spec ::
  "(type_ref \<Rightarrow> value_node \<Rightarrow> error + 'n js_value)
    \<Rightarrow> (type_ref \<Rightarrow> error + 'n js_value option)
    \<Rightarrow> 'n graphql_directive \<Rightarrow> directive_node \<Rightarrow> error + (string \<times> 'n js_value) list" where
  "getArgumentValues_spec coerce missing def node =
     getArgumentValues_loop coerce missing
       (fold (\<lambda>(k, v). js_set k v) (dn_arguments node) []) [] (directive_args def)"

section \<open>Vocabulary of the properties\<close>

text \<open>The names of an object in the order of their first assignment.\<close>

fun first_occurrences :: "'a list \<Rightarrow> 'a list" where
  "first_occurrences [] = []"
| "first_occurrences (x # xs) = x # filter (\<lambda>y. y \<noteq> x) (first_occurrences xs)"

text \<open>A raw literal that holds a node of a kind outside the \<^verbatim>\<open>switch\<close>.\<close>

fun unsupported :: "value_node \<Rightarrow> bool" where
  "unsupported (Variable x) = True"
| "unsupported (ListValue vs) = list_ex unsupported vs"
| "unsupported (ObjectValue fs) = list_ex (\<lambda>f. unsupported (snd f)) fs"
| "unsupported _ = False"

text \<open>
  What \<^verbatim>\<open>getVisitors\<close> makes of one directive node: nothing (\<open>None\<close>) when the name
  has no class or the class does not pass \<^verbatim>\<open>shouldCall\<close>, otherwise the exception of
  the argument conversion or the visitor.
\<close>

definition responds :: "'n env \<Rightarrow> string \<Rightarrow> directive_node \<Rightarrow> bool" where
  "responds env methodName directiveNode =
     (case js_get (directiveVisitors env) (dn_name directiveNode) of
        None \<Rightarrow> False
      | Some visitorClass \<Rightarrow> shouldCall visitorClass methodName)"

definition resolve_node ::
  "'n env \<Rightarrow> 'n visitable \<Rightarrow> string \<Rightarrow> directive_node \<Rightarrow> (error + 'n visitor) option" where
  "resolve_node env type methodName directiveNode =
     (case js_get (directiveVisitors env) (dn_name directiveNode) of
        None \<Rightarrow> None
      | Some visitorClass \<Rightarrow>
          if \<not> shouldCall visitorClass methodName then None
          else Some (case directive_args_of env directiveNode of
                       Inl e \<Rightarrow> Inl e
                     | Inr args' \<Rightarrow>
                         Inr \<lparr>constructor = visitorClass, name = dn_name directiveNode,
                              args = args', visitedType = type, schema = the_schema env\<rparr>))"

fun collect :: "(error + 'a) option list \<Rightarrow> 'a list \<times> error option" where
  "collect [] = ([], None)"
| "collect (None # rs) = collect rs"
| "collect (Some (Inl e) # rs) = ([], Some e)"
| "collect (Some (Inr v) # rs) = (v # fst (collect rs), snd (collect rs))"

definition resolve :: "'n env \<Rightarrow> 'n visitable \<Rightarrow> string \<Rightarrow> 'n visitor list \<times> error option" where
  "resolve env type methodName =
     (case directiveNodes type of
        None \<Rightarrow> ([], None)
      | Some nodes \<Rightarrow> collect (map (resolve_node env type methodName) nodes))"

text \<open>
  The calls of \<^verbatim>\<open>callVisitorMethods\<close> that a walk makes, in order, when none of them
  throws: method name, node, additional arguments.
\<close>

type_synonym 'n call = "string \<times> 'n visitable \<times> 'n details"

definition calls_of_field :: "'n named_type \<Rightarrow> 'n graphql_field \<Rightarrow> 'n call list" where
  "calls_of_field type field =
     (''visitFieldDefinition'', VField field, ObjectTypeDetails type) #
     (case field_args field of
        None \<Rightarrow> []
      | Some as \<Rightarrow> map (\<lambda>arg. (''visitArgumentDefinition'', VArgument arg, FieldDetails field type)) as)"

definition calls_of_fields :: "'n named_type \<Rightarrow> 'n call list" where
  "calls_of_fields type = concat (map (\<lambda>(key, field). calls_of_field type field) (getFields type))"

fun visit_method :: "'n named_type \<Rightarrow> string" where
  "visit_method (GraphQLObjectType t) = ''visitObject''"
| "visit_method (GraphQLInterfaceType t) = ''visitInterface''"
| "visit_method (GraphQLInputObjectType t) = ''visitInputObject''"
| "visit_method (GraphQLScalarType t) = ''visitScalar''"
| "visit_method (GraphQLUnionType t) = ''visitUnion''"
| "visit_method (GraphQLEnumType t) = ''visitEnum''"

fun calls_below :: "'n named_type \<Rightarrow> 'n call list" where
  "calls_below (GraphQLObjectType t) = calls_of_fields (GraphQLObjectType t)"
| "calls_below (GraphQLInterfaceType t) = calls_of_fields (GraphQLInterfaceType t)"
| "calls_below (GraphQLInputObjectType t) =
     map (\<lambda>(key, field). (''visitInputFieldDefinition'', VInputField field,
                            ObjectTypeDetails (GraphQLInputObjectType t)))
       (input_object_fields t)"
| "calls_below (GraphQLScalarType t) = []"
| "calls_below (GraphQLUnionType t) = []"
| "calls_below (GraphQLEnumType t) =
     map (\<lambda>v. (''visitEnumValue'', VEnumValue v, EnumTypeDetails (GraphQLEnumType t)))
       (enum_values t)"

definition calls_of_type :: "'n named_type \<Rightarrow> 'n call list" where
  "calls_of_type type = (visit_method type, VNamedType type, NoDetails) # calls_below type"

definition visited_types :: "'n graphql_schema \<Rightarrow> 'n named_type list" where
  "visited_types s =
     map snd (filter (\<lambda>(typeName, namedType). \<not> prefix ''__'' typeName) (schema_typeMap s))"

definition calls_of_schema :: "'n graphql_schema \<Rightarrow> 'n call list" where
  "calls_of_schema s =
     (''visitSchema'', VSchema s, NoDetails) # concat (map calls_of_type (visited_types s))"

text \<open>The trace of one call and of a list of calls that stops at the first exception.\<close>

definition call_trace :: "'n env \<Rightarrow> 'n call \<Rightarrow> 'n event list" where
  "call_trace env c =
     (case c of (methodName, type, additionalArgs) \<Rightarrow>
        GetVisitors methodName type #
        map Construct (fst (resolve env type methodName)) @
        (case snd (resolve env type methodName) of
           None \<Rightarrow> map (\<lambda>d. Dispatch methodName d type additionalArgs)
                     (fst (resolve env type methodName))
         | Some e \<Rightarrow> []))"

definition call_error :: "'n env \<Rightarrow> 'n call \<Rightarrow> error option" where
  "call_error env c = (case c of (methodName, type, additionalArgs) \<Rightarrow> snd (resolve env type methodName))"

fun calls_trace :: "'n env \<Rightarrow> 'n call list \<Rightarrow> 'n event list \<times> error option" where
  "calls_trace env [] = ([], None)"
| "calls_trace env (c # cs) =
     (case call_error env c of
        Some e \<Rightarrow> (call_trace env c, Some e)
      | None \<Rightarrow> (call_trace env c @ fst (calls_trace env cs), snd (calls_trace env cs)))"

text \<open>Reading a trace: the visitors constructed, the visitors dispatched, the calls on
  the schema and on named types.\<close>

fun constructed :: "'n event list \<Rightarrow> 'n visitor list" where
  "constructed [] = []"
| "constructed (Construct v # es) = v # constructed es"
| "constructed (_ # es) = constructed es"

fun dispatched :: "'n event list \<Rightarrow> 'n visitor list" where
  "dispatched [] = []"
| "dispatched (Dispatch m v t d # es) = v # dispatched es"
| "dispatched (_ # es) = dispatched es"

fun type_calls :: "'n event list \<Rightarrow> (string \<times> 'n visitable) list" where
  "type_calls [] = []"
| "type_calls (GetVisitors m (VSchema s) # es) = (m, VSchema s) # type_calls es"
| "type_calls (GetVisitors m (VNamedType t) # es) = (m, VNamedType t) # type_calls es"
| "type_calls (_ # es) = type_calls es"

text \<open>An event of the visit of a node by the given method, without additional arguments.\<close>

fun event_at :: "string \<Rightarrow> 'n visitable \<Rightarrow> 'n event \<Rightarrow> bool" where
  "event_at methodName type (GetVisitors m t) = (m = methodName \<and> t = type)"
| "event_at methodName type (Construct v) = (visitedType v = type)"
| "event_at methodName type (Dispatch m v t d) =
     (m = methodName \<and> t = type \<and> visitedType v = type \<and> d = NoDetails)"

text \<open>A schema none of whose objects has an AST node.\<close>

fun type_without_astNodes :: "'n named_type \<Rightarrow> bool" where
  "type_without_astNodes (GraphQLObjectType t) =
     (object_astNode t = None \<and>
      list_all (\<lambda>(key, f). field_astNode f = None \<and>
                 (case field_args f of None \<Rightarrow> True
                  | Some as \<Rightarrow> list_all (\<lambda>a. arg_astNode a = None) as))
        (object_fields t))"
| "type_without_astNodes (GraphQLInterfaceType t) =
     (object_astNode t = None \<and>
      list_all (\<lambda>(key, f). field_astNode f = None \<and>
                 (case field_args f of None \<Rightarrow> True
                  | Some as \<Rightarrow> list_all (\<lambda>a. arg_astNode a = None) as))
        (object_fields t))"
| "type_without_astNodes (GraphQLInputObjectType t) =
     (input_object_astNode t = None \<and>
      list_all (\<lambda>(key, f). input_field_astNode f = None) (input_object_fields t))"
| "type_without_astNodes (GraphQLScalarType t) = (scalar_astNode t = None)"
| "type_without_astNodes (GraphQLUnionType t) = (union_astNode t = None)"
| "type_without_astNodes (GraphQLEnumType t) =
     (enum_astNode t = None \<and> list_all (\<lambda>v. enum_value_astNode v = None) (enum_values t))"

definition without_astNodes :: "'n graphql_schema \<Rightarrow> bool" where
  "without_astNodes s =
     (schema_astNode s = None \<and>
      list_all (\<lambda>(typeName, namedType). type_without_astNodes namedType) (schema_typeMap s))"

section \<open>A sample schema\<close>

text \<open>
  Concrete inputs for the properties below. In the samples a number stands as the text
  it was read from.
  \<^verbatim>\<open>
  type Query @a @b { people: String @a(max: 50) @b @c }
  union Result @b = Query
  type __Hidden @b
  \<close>
  with \<^verbatim>\<open>a\<close> handled by a class that overrides \<^verbatim>\<open>visitFieldDefinition\<close> and
  \<^verbatim>\<open>b\<close> by a class that overrides \<^verbatim>\<open>visitObject\<close>, \<^verbatim>\<open>visitFieldDefinition\<close> and
  \<^verbatim>\<open>visitUnion\<close>.
\<close>

definition sample_builtins :: "string builtins" where
  "sample_builtins = \<lparr>parseInt = (\<lambda>s. s), parseFloat = (\<lambda>s. s)\<rparr>"

definition sample_getArgumentValues ::
  "string graphql_directive \<Rightarrow> directive_node \<Rightarrow> error + (string \<times> string js_value) list" where
  "sample_getArgumentValues =
     getArgumentValues_spec (\<lambda>ty v. valueFromASTUntyped sample_builtins v) (\<lambda>ty. Inr None)"

definition FieldVisitor :: visitor_class where
  "FieldVisitor = Subclass ''FieldVisitor'' SchemaDirectiveVisitor
     [(''visitFieldDefinition'', Method 1)]"

definition TypeVisitor :: visitor_class where
  "TypeVisitor = Subclass ''TypeVisitor'' SchemaDirectiveVisitor
     [(''visitObject'', Method 2), (''visitFieldDefinition'', Method 3), (''visitUnion'', Method 4)]"

definition sample_visitors :: "(string \<times> visitor_class) list" where
  "sample_visitors = [(''a'', FieldVisitor), (''b'', TypeVisitor)]"

definition sample_people :: "string graphql_field" where
  "sample_people =
     \<lparr>field_name = ''people'', field_args = Some [],
      field_astNode = Some \<lparr>directives = Some
        [\<lparr>dn_name = ''a'', dn_arguments = [(''max'', IntValue ''50'')]\<rparr>,
         \<lparr>dn_name = ''b'', dn_arguments = []\<rparr>,
         \<lparr>dn_name = ''c'', dn_arguments = []\<rparr>]\<rparr>\<rparr>"

definition sample_Query :: "string object_type" where
  "sample_Query =
     \<lparr>object_name = ''Query'',
      object_astNode = Some \<lparr>directives = Some
        [\<lparr>dn_name = ''a'', dn_arguments = []\<rparr>, \<lparr>dn_name = ''b'', dn_arguments = []\<rparr>]\<rparr>,
      object_fields = [(''people'', sample_people)]\<rparr>"

definition sample_Result :: "string union_type" where
  "sample_Result =
     \<lparr>union_name = ''Result'',
      union_astNode = Some \<lparr>directives = Some [\<lparr>dn_name = ''b'', dn_arguments = []\<rparr>]\<rparr>,
      union_types = [sample_Query]\<rparr>"

definition sample_Hidden :: "string object_type" where
  "sample_Hidden =
     \<lparr>object_name = ''__Hidden'',
      object_astNode = Some \<lparr>directives = Some [\<lparr>dn_name = ''b'', dn_arguments = []\<rparr>]\<rparr>,
      object_fields = []\<rparr>"

definition sample_schema :: "string graphql_schema" where
  "sample_schema =
     \<lparr>schema_astNode = None,
      schema_typeMap =
        [(''Query'', GraphQLObjectType sample_Query),
         (''Result'', GraphQLUnionType sample_Result),
         (''__Hidden'', GraphQLObjectType sample_Hidden)],
      schema_directives = []\<rparr>"

text \<open>
  A schema with a variable in a directive argument, and a second one with other names:
  \<^verbatim>\<open>
  type Account @b { id: ID @b @a(x: $v)  other: ID @b }
  type Later @b
  \<close>
  and
  \<^verbatim>\<open>
  type Other { f: ID @b(y: [1, $w]) }
  \<close>
\<close>

definition sample_id :: "string graphql_field" where
  "sample_id =
     \<lparr>field_name = ''id'', field_args = None,
      field_astNode = Some \<lparr>directives = Some
        [\<lparr>dn_name = ''b'', dn_arguments = []\<rparr>,
         \<lparr>dn_name = ''a'', dn_arguments = [(''x'', Variable ''v'')]\<rparr>]\<rparr>\<rparr>"

definition sample_other :: "string graphql_field" where
  "sample_other =
     \<lparr>field_name = ''other'', field_args = None,
      field_astNode = Some \<lparr>directives = Some [\<lparr>dn_name = ''b'', dn_arguments = []\<rparr>]\<rparr>\<rparr>"

definition sample_Account :: "string object_type" where
  "sample_Account =
     \<lparr>object_name = ''Account'',
      object_astNode = Some \<lparr>directives = Some [\<lparr>dn_name = ''b'', dn_arguments = []\<rparr>]\<rparr>,
      object_fields = [(''id'', sample_id), (''other'', sample_other)]\<rparr>"

definition sample_Later :: "string object_type" where
  "sample_Later =
     \<lparr>object_name = ''Later'',
      object_astNode = Some \<lparr>directives = Some [\<lparr>dn_name = ''b'', dn_arguments = []\<rparr>]\<rparr>,
      object_fields = []\<rparr>"

definition sample_broken :: "string graphql_schema" where
  "sample_broken =
     \<lparr>schema_astNode = None,
      schema_typeMap =
        [(''Account'', GraphQLObjectType sample_Account),
         (''Later'', GraphQLObjectType sample_Later)],
      schema_directives = []\<rparr>"

definition sample_f :: "string graphql_field" where
  "sample_f =
     \<lparr>field_name = ''f'', field_args = None,
      field_astNode = Some \<lparr>directives = Some
        [\<lparr>dn_name = ''b'',
          dn_arguments = [(''y'', ListValue [IntValue ''1'', Variable ''w''])]\<rparr>]\<rparr>\<rparr>"

definition sample_broken_too :: "string graphql_schema" where
  "sample_broken_too =
     \<lparr>schema_astNode = None,
      schema_typeMap =
        [(''Other'', GraphQLObjectType
           \<lparr>object_name = ''Other'', object_astNode = None,
            object_fields = [(''f'', sample_f)]\<rparr>)],
      schema_directives = []\<rparr>"

text \<open>
  A schema with a declared directive:
  \<^verbatim>\<open>
  directive @auth(requires: Role = ADMIN, reason: String) on OBJECT
  type Query @auth
  \<close>
\<close>

definition sample_auth :: "string graphql_directive" where
  "sample_auth =
     \<lparr>directive_name = ''auth'',
      directive_args =
        [\<lparr>arg_name = ''requires'', arg_type = NamedTypeRef ''Role'',
          arg_defaultValue = Some (JString ''ADMIN''), arg_astNode = None\<rparr>,
         \<lparr>arg_name = ''reason'', arg_type = NamedTypeRef ''String'',
          arg_defaultValue = None, arg_astNode = None\<rparr>]\<rparr>"

definition sample_declared :: "string graphql_schema" where
  "sample_declared =
     \<lparr>schema_astNode = None,
      schema_typeMap =
        [(''Query'', GraphQLObjectType
           \<lparr>object_name = ''Query'',
            object_astNode = Some \<lparr>directives = Some [\<lparr>dn_name = ''auth'', dn_arguments = []\<rparr>]\<rparr>,
            object_fields = []\<rparr>)],
      schema_directives = [sample_auth]\<rparr>"

text \<open>
  A schema built without SDL: \<^verbatim>\<open>type Query { people(limit: Int): String }\<close> and
  \<^verbatim>\<open>scalar Date\<close>, no object with an AST node.
\<close>

definition sample_Date :: scalar_type where
  "sample_Date = \<lparr>scalar_name = ''Date'', scalar_astNode = None\<rparr>"

definition sample_programmatic :: "string graphql_schema" where
  "sample_programmatic =
     \<lparr>schema_astNode = None,
      schema_typeMap =
        [(''Query'', GraphQLObjectType
           \<lparr>object_name = ''Query'', object_astNode = None,
            object_fields =
              [(''people'',
                \<lparr>field_name = ''people'',
                 field_args = Some [\<lparr>arg_name = ''limit'', arg_type = NamedTypeRef ''Int'',
                                     arg_defaultValue = None, arg_astNode = None\<rparr>],
                 field_astNode = None\<rparr>)]\<rparr>),
         (''Date'', GraphQLScalarType sample_Date)],
      schema_directives = []\<rparr>"

text \<open>The closure and the initial state of \<^verbatim>\<open>visitSchema\<close> on these schemas.\<close>

definition sample_env :: "string env" where
  "sample_env =
     visitSchema_env sample_builtins sample_getArgumentValues sample_schema sample_visitors"

definition sample_broken_env :: "string env" where
  "sample_broken_env =
     visitSchema_env sample_builtins sample_getArgumentValues sample_broken sample_visitors"

definition sample_start :: "string walk_state" where
  "sample_start = visitSchema_start sample_visitors"

text \<open>
  A schema whose schema definition carries a directive, with a reserved type between
  two others:
  \<^verbatim>\<open>
  schema @b { query: Root }
  type Root @b { name: String @a }
  type __Reserved @b { x: Int @b }
  scalar Stamp @b
  \<close>
  with \<^verbatim>\<open>b\<close> handled by a class that overrides \<^verbatim>\<open>visitSchema\<close>,
  \<^verbatim>\<open>visitObject\<close>, \<^verbatim>\<open>visitFieldDefinition\<close> and \<^verbatim>\<open>visitScalar\<close>.
\<close>

definition SchemaVisitor :: visitor_class where
  "SchemaVisitor = Subclass ''SchemaVisitor'' SchemaDirectiveVisitor
     [(''visitSchema'', Method 5), (''visitObject'', Method 6),
      (''visitFieldDefinition'', Method 7), (''visitScalar'', Method 8)]"

definition sample_rooted_visitors :: "(string \<times> visitor_class) list" where
  "sample_rooted_visitors = [(''a'', FieldVisitor), (''b'', SchemaVisitor)]"

definition sample_name :: "string graphql_field" where
  "sample_name =
     \<lparr>field_name = ''name'', field_args = None,
      field_astNode = Some \<lparr>directives = Some [\<lparr>dn_name = ''a'', dn_arguments = []\<rparr>]\<rparr>\<rparr>"

definition sample_Root :: "string object_type" where
  "sample_Root =
     \<lparr>object_name = ''Root'',
      object_astNode = Some \<lparr>directives = Some [\<lparr>dn_name = ''b'', dn_arguments = []\<rparr>]\<rparr>,
      object_fields = [(''name'', sample_name)]\<rparr>"

definition sample_x :: "string graphql_field" where
  "sample_x =
     \<lparr>field_name = ''x'', field_args = None,
      field_astNode = Some \<lparr>directives = Some [\<lparr>dn_name = ''b'', dn_arguments = []\<rparr>]\<rparr>\<rparr>"

definition sample_Reserved :: "string object_type" where
  "sample_Reserved =
     \<lparr>object_name = ''__Reserved'',
      object_astNode = Some \<lparr>directives = Some [\<lparr>dn_name = ''b'', dn_arguments = []\<rparr>]\<rparr>,
      object_fields = [(''x'', sample_x)]\<rparr>"

definition sample_Stamp :: scalar_type where
  "sample_Stamp =
     \<lparr>scalar_name = ''Stamp'',
      scalar_astNode = Some \<lparr>directives = Some [\<lparr>dn_name = ''b'', dn_arguments = []\<rparr>]\<rparr>\<rparr>"

definition sample_rooted :: "string graphql_schema" where
  "sample_rooted =
     \<lparr>schema_astNode = Some \<lparr>directives = Some [\<lparr>dn_name = ''b'', dn_arguments = []\<rparr>]\<rparr>,
      schema_typeMap =
        [(''Root'', GraphQLObjectType sample_Root),
         (''__Reserved'', GraphQLObjectType sample_Reserved),
         (''Stamp'', GraphQLScalarType sample_Stamp)],
      schema_directives = []\<rparr>"

section \<open>Objects\<close>

lemma js_set_update: "js_set k v obj = AList.update k v obj"
  by (induction obj) auto

lemma js_get_js_set: "js_get (js_set k v obj) k' = (if k' = k then Some v else js_get obj k')"
  by (simp add: js_get_def js_set_update update_conv')

lemma keys_js_set:
  "keys (js_set k v obj) = (if k \<in> set (keys obj) then keys obj else keys obj @ [k])"
  by (simp add: keys_def js_set_update update_keys)

lemma hasOwn_js_get: "hasOwn obj k \<longleftrightarrow> js_get obj k \<noteq> None"
  by (simp add: hasOwn_def js_get_def map_of_eq_None_iff)

lemma js_get_None_keys: "js_get obj k = None \<longleftrightarrow> k \<notin> set (keys obj)"
  by (simp add: keys_def js_get_def map_of_eq_None_iff)

lemma set_first_occurrences: "set (first_occurrences xs) = set xs"
  by (induction xs) auto

lemma distinct_first_occurrences: "distinct (first_occurrences xs)"
  by (induction xs) (auto simp: set_first_occurrences)

lemma keys_fold_js_set:
  "keys (fold (\<lambda>(k, x). js_set k x) ps obj) =
     keys obj @ filter (\<lambda>k. k \<notin> set (keys obj)) (first_occurrences (map fst ps))"
proof (induction ps arbitrary: obj)
  case Nil
  then show ?case by simp
next
  case (Cons p ps)
  obtain k x where p: "p = (k, x)" by (cases p)
  have a: "filter (\<lambda>y. y \<noteq> k \<and> y \<notin> set (keys obj)) zs = filter (\<lambda>y. y \<notin> set (keys obj)) zs"
    if "k \<in> set (keys obj)" for zs
    using that by (intro filter_cong) auto
  have b: "filter (\<lambda>y. y \<notin> set (keys obj) \<and> y \<noteq> k) zs
             = filter (\<lambda>y. y \<noteq> k \<and> y \<notin> set (keys obj)) zs" for zs
    by (intro filter_cong) auto
  show ?case
    by (simp add: p Cons.IH keys_js_set a b)
qed

lemma js_get_fold_js_set:
  "js_get (fold (\<lambda>(k, x). js_set k x) ps obj) k = map_of (rev ps @ obj) k"
  by (induction ps arbitrary: obj)
     (auto simp: js_get_def js_set_update update_conv' map_add_def split: option.splits)

section \<open>The literal decoder\<close>

lemma values_Inr_D:
  "valueFromASTUntyped_values B vs = Inr xs \<Longrightarrow>
     list_all2 (\<lambda>v x. valueFromASTUntyped B v = Inr x) vs xs"
  by (induction vs arbitrary: xs) (auto split: sum.splits)

lemma values_Inr_I:
  "list_all2 (\<lambda>v x. valueFromASTUntyped B v = Inr x) vs xs \<Longrightarrow>
     valueFromASTUntyped_values B vs = Inr xs"
  by (induction vs arbitrary: xs) (auto simp: list_all2_Cons1)

lemma fields_Inr_I:
  "list_all2 (\<lambda>f x. valueFromASTUntyped B (snd f) = Inr x) fs xs \<Longrightarrow>
   valueFromASTUntyped_fields B obj fs =
     Inr (fold (\<lambda>(k, x). js_set k x) (zip (map fst fs) xs) obj)"
  by (induction fs arbitrary: obj xs) (auto simp: list_all2_Cons1)

lemma fields_Inr_D:
  "valueFromASTUntyped_fields B obj fs = Inr obj' \<Longrightarrow>
   \<exists>xs. list_all2 (\<lambda>f x. valueFromASTUntyped B (snd f) = Inr x) fs xs"
  by (induction fs arbitrary: obj) (auto split: sum.splits simp: list_all2_Cons1)

lemma arguments_forEach_fields:
  "arguments_forEach B obj as = valueFromASTUntyped_fields B obj as"
  by (induction as arbitrary: obj) (auto split: sum.splits)

text \<open>The decoder fails exactly on the literals that hold an unsupported node, and
  then with the one message it has.\<close>

lemma decode_fails_iff:
  "(\<exists>e. valueFromASTUntyped B v = Inl e) \<longleftrightarrow> unsupported v"
  "(\<exists>e. valueFromASTUntyped_values B vs = Inl e) \<longleftrightarrow> list_ex unsupported vs"
  "(\<exists>e. valueFromASTUntyped_fields B obj fs = Inl e) \<longleftrightarrow> list_ex (\<lambda>f. unsupported (snd f)) fs"
  by (induction B v and B vs and B obj fs
      rule: valueFromASTUntyped_valueFromASTUntyped_values_valueFromASTUntyped_fields.induct)
     (auto split: sum.splits)

lemma decode_error:
  "valueFromASTUntyped B v = Inl e \<Longrightarrow> e = Error ''Unexpected value kind: Variable''"
  "valueFromASTUntyped_values B vs = Inl e \<Longrightarrow> e = Error ''Unexpected value kind: Variable''"
  "valueFromASTUntyped_fields B obj fs = Inl e \<Longrightarrow> e = Error ''Unexpected value kind: Variable''"
  by (induction B v and B vs and B obj fs
      rule: valueFromASTUntyped_valueFromASTUntyped_values_valueFromASTUntyped_fields.induct)
     (auto split: sum.splits)

section \<open>Iteration\<close>

lemma forEach_append:
  "forEach f (xs @ ys) st =
     (case forEach f xs st of (Inl e, st1) \<Rightarrow> (Inl e, st1) | (Inr u, st1) \<Rightarrow> forEach f ys st1)"
  by (induction xs arbitrary: st) (auto split: prod.splits sum.splits)

lemma forEach_map: "forEach f (map g xs) st = forEach (\<lambda>x. f (g x)) xs st"
  by (induction xs arbitrary: st) (auto split: prod.splits sum.splits)

lemma forEach_concat:
  "forEach (\<lambda>x. forEach f (g x)) xs st = forEach f (concat (map g xs)) st"
  by (induction xs arbitrary: st) (auto simp: forEach_append split: prod.splits sum.splits)

lemma emit_emit: "emit es (emit es' st) = emit (es' @ es) st"
  by (simp add: emit_def)

lemma emit_Nil: "emit [] st = st"
  by (simp add: emit_def)

lemma trace_emit: "trace (emit es st) = trace st @ es"
  by (simp add: emit_def)

lemma createdVisitors_emit: "createdVisitors (emit es st) = createdVisitors st"
  by (simp add: emit_def)

section \<open>The walk as a list of calls\<close>

lemma visitFields_calls:
  "visitFields env type st =
     forEach (\<lambda>(m, t, d). callVisitorMethods env m t d) (calls_of_fields type) st"
proof -
  have one: "(case callVisitorMethods env ''visitFieldDefinition'' (VField field)
                     (ObjectTypeDetails type) s of
               (Inl e, st1) \<Rightarrow> (Inl e, st1)
             | (Inr u, st1) \<Rightarrow>
                 (case field_args field of
                    None \<Rightarrow> (Inr (), st1)
                  | Some as \<Rightarrow>
                      forEach (\<lambda>arg. callVisitorMethods env ''visitArgumentDefinition''
                                       (VArgument arg) (FieldDetails field type)) as st1))
            = forEach (\<lambda>(m, t, d). callVisitorMethods env m t d) (calls_of_field type field) s"
    for field s
    by (cases "field_args field")
       (auto simp: calls_of_field_def forEach_map split: prod.splits sum.splits)
  have "visitFields env type st =
          forEach (\<lambda>(key, field). forEach (\<lambda>(m, t, d). callVisitorMethods env m t d)
                     (calls_of_field type field)) (getFields type) st"
    unfolding visitFields_def each_def one ..
  also have "\<dots> = forEach (\<lambda>kf. forEach (\<lambda>(m, t, d). callVisitorMethods env m t d)
                     ((\<lambda>(key, field). calls_of_field type field) kf)) (getFields type) st"
    by (simp add: case_prod_unfold)
  finally show ?thesis
    by (simp only: forEach_concat calls_of_fields_def)
qed

lemma forEach_single: "forEach f [x] st = f x st"
proof (cases "f x st")
  case (Pair r st1)
  then show ?thesis by (cases r) auto
qed

lemma forEach_Cons_single:
  "forEach f (x # xs) st =
     (case forEach f [x] st of (Inl e, st1) \<Rightarrow> (Inl e, st1) | (Inr u, st1) \<Rightarrow> forEach f xs st1)"
  using forEach_append [of f "[x]" xs st] by simp

lemma visit_type_calls:
  "visit env (VNamedType t) st =
     forEach (\<lambda>(m, t, d). callVisitorMethods env m t d) (calls_of_type t) st"
proof (cases t)
  case (GraphQLObjectType x)
  then show ?thesis
    by (simp add: calls_of_type_def visitFields_calls split: prod.splits sum.splits)
next
  case (GraphQLInterfaceType x)
  then show ?thesis
    by (simp add: calls_of_type_def visitFields_calls split: prod.splits sum.splits)
next
  case (GraphQLInputObjectType x)
  then show ?thesis
    by (simp add: calls_of_type_def each_def forEach_map case_prod_unfold
             split: prod.splits sum.splits)
next
  case (GraphQLScalarType x)
  then show ?thesis
    by (simp add: calls_of_type_def forEach_single del: forEach.simps)
next
  case (GraphQLUnionType x)
  then show ?thesis
    by (simp add: calls_of_type_def forEach_single del: forEach.simps)
next
  case (GraphQLEnumType x)
  then show ?thesis
    by (simp add: calls_of_type_def forEach_map split: prod.splits sum.splits)
qed

lemma visit_typeMap_calls:
  "visit_typeMap env tm st =
     forEach (\<lambda>(m, t, d). callVisitorMethods env m t d)
       (concat (map calls_of_type
          (map snd (filter (\<lambda>(typeName, namedType). \<not> prefix ''__'' typeName) tm)))) st"
proof (induction tm arbitrary: st)
  case Nil
  then show ?case by simp
next
  case (Cons p tm)
  obtain k t where p: "p = (k, t)" by (cases p)
  show ?case
    by (simp add: p Cons.IH visit_type_calls forEach_append split: prod.splits sum.splits)
qed

lemma visit_schema_calls:
  "visit env (VSchema s) st =
     forEach (\<lambda>(m, t, d). callVisitorMethods env m t d) (calls_of_schema s) st"
  by (simp add: calls_of_schema_def visited_types_def visit_typeMap_calls
           split: prod.splits sum.splits)

section \<open>What one call does\<close>

lemma directiveNodes_forEach_collect:
  "directiveNodes_forEach env type m ds acc st =
     ((case snd (collect (map (resolve_node env type m) ds)) of
         None \<Rightarrow> Inr (acc @ fst (collect (map (resolve_node env type m) ds)))
       | Some e \<Rightarrow> Inl e),
      emit (map Construct (fst (collect (map (resolve_node env type m) ds)))) st)"
proof (induction ds arbitrary: acc st)
  case Nil
  then show ?case by (simp add: emit_Nil)
next
  case (Cons d ds)
  show ?case
  proof (cases "resolve_node env type m d")
    case None
    then show ?thesis
      by (auto simp: Cons.IH resolve_node_def split: option.splits if_splits)
  next
    case (Some r)
    show ?thesis
    proof (cases r)
      case (Inl e)
      with Some show ?thesis
        by (auto simp: resolve_node_def emit_Nil split: option.splits if_splits sum.splits)
    next
      case (Inr v)
      with Some show ?thesis
        by (auto simp: Cons.IH resolve_node_def emit_emit Let_def
                 split: option.splits if_splits sum.splits)
    qed
  qed
qed

lemma js_get_Some_keys: "js_get obj k = Some v \<Longrightarrow> k \<in> set (keys obj)"
  using js_get_None_keys [of obj k] by auto

lemma collect_set: "v \<in> set (fst (collect rs)) \<Longrightarrow> Some (Inr v) \<in> set rs"
  by (induction rs rule: collect.induct) auto

lemma resolve_node_Inr:
  assumes "resolve_node env type m d = Some (Inr v)"
  shows "name v = dn_name d" and "visitedType v = type" and "schema v = the_schema env"
    and "js_get (directiveVisitors env) (dn_name d) = Some (constructor v)"
    and "shouldCall (constructor v) m"
    and "directive_args_of env d = Inr (args v)"
  using assms
  by (auto simp: resolve_node_def split: option.splits if_splits sum.splits)

lemma collect_name:
  assumes "v \<in> set (fst (collect (map (resolve_node env type m) ds)))"
  shows "name v \<in> set (keys (directiveVisitors env))"
proof -
  from collect_set [OF assms] obtain d where "resolve_node env type m d = Some (Inr v)"
    by auto
  from resolve_node_Inr(1,4) [OF this] show ?thesis
    by (auto dest: js_get_Some_keys)
qed

lemma resolve_name:
  "v \<in> set (fst (resolve env type m)) \<Longrightarrow> name v \<in> set (keys (directiveVisitors env))"
  by (auto simp: resolve_def collect_name split: option.splits)

lemma createdVisitors_push_ok:
  "\<forall>v\<in>set vs. name v \<in> set (keys (createdVisitors st)) \<Longrightarrow>
   \<exists>C. createdVisitors_push vs st = (Inr (), st\<lparr>createdVisitors := C\<rparr>) \<and>
       keys C = keys (createdVisitors st) \<and>
       (\<forall>n. js_get C n =
          map_option (\<lambda>l. l @ filter (\<lambda>v. name v = n) vs) (js_get (createdVisitors st) n))"
proof (induction vs arbitrary: st)
  case Nil
  show ?case
    by (rule exI [of _ "createdVisitors st"]) (simp add: option.map_ident)
next
  case (Cons v vs)
  from Cons.prems obtain l where l: "js_get (createdVisitors st) (name v) = Some l"
    by (cases "js_get (createdVisitors st) (name v)") (auto simp: js_get_None_keys)
  let ?st = "st\<lparr>createdVisitors := js_set (name v) (l @ [v]) (createdVisitors st)\<rparr>"
  have k: "keys (createdVisitors ?st) = keys (createdVisitors st)"
    using Cons.prems by (simp add: keys_js_set)
  with Cons.prems have "\<forall>v\<in>set vs. name v \<in> set (keys (createdVisitors ?st))"
    by simp
  from Cons.IH [OF this] obtain C where
    C: "createdVisitors_push vs ?st = (Inr (), ?st\<lparr>createdVisitors := C\<rparr>)"
       "keys C = keys (createdVisitors ?st)"
       "\<forall>n. js_get C n =
          map_option (\<lambda>l. l @ filter (\<lambda>v. name v = n) vs) (js_get (createdVisitors ?st) n)"
    by blast
  show ?case
  proof (intro exI [of _ C] conjI allI)
    show "createdVisitors_push (v # vs) st = (Inr (), st\<lparr>createdVisitors := C\<rparr>)"
      using C(1) l by simp
    show "keys C = keys (createdVisitors st)"
      using C(2) k by simp
    show "js_get C n =
            map_option (\<lambda>l. l @ filter (\<lambda>v. name v = n) (v # vs)) (js_get (createdVisitors st) n)"
      for n
      using C(3) l by (cases "js_get (createdVisitors st) n") (auto simp: js_get_js_set)
  qed
qed

lemma getVisitors_sem:
  assumes "set (keys (directiveVisitors env)) \<subseteq> set (keys (createdVisitors st))"
  shows "\<exists>st'. getVisitors env type m st =
           ((case snd (resolve env type m) of
               None \<Rightarrow> Inr (fst (resolve env type m))
             | Some e \<Rightarrow> Inl e), st') \<and>
         trace st' = trace st @ GetVisitors m type # map Construct (fst (resolve env type m)) \<and>
         keys (createdVisitors st') = keys (createdVisitors st) \<and>
         (snd (resolve env type m) = None \<longrightarrow>
            (\<forall>n. js_get (createdVisitors st') n =
               map_option (\<lambda>l. l @ filter (\<lambda>v. name v = n) (fst (resolve env type m)))
                 (js_get (createdVisitors st) n)))"
proof (cases "directiveNodes type")
  case None
  then show ?thesis
    by (simp add: getVisitors_def resolve_def trace_emit createdVisitors_emit option.map_ident)
next
  case (Some ds)
  let ?c = "collect (map (resolve_node env type m) ds)"
  let ?st1 = "emit (map Construct (fst ?c)) (emit [GetVisitors m type] st)"
  have r: "resolve env type m = ?c"
    using Some by (simp add: resolve_def)
  have loop: "directiveNodes_forEach env type m ds [] (emit [GetVisitors m type] st) =
          ((case snd ?c of None \<Rightarrow> Inr (fst ?c) | Some e \<Rightarrow> Inl e), ?st1)"
    by (simp add: directiveNodes_forEach_collect split: option.splits)
  show ?thesis
  proof (cases "snd ?c")
    case (Some e)
    then show ?thesis
      using loop \<open>directiveNodes type = Some ds\<close>
      by (simp add: getVisitors_def r trace_emit createdVisitors_emit)
  next
    case None
    have "\<forall>v\<in>set (fst ?c). name v \<in> set (keys (createdVisitors ?st1))"
      using assms collect_name [of _ env type m ds] by (auto simp: createdVisitors_emit)
    from createdVisitors_push_ok [OF this] obtain C where
      C: "createdVisitors_push (fst ?c) ?st1 = (Inr (), ?st1\<lparr>createdVisitors := C\<rparr>)"
         "keys C = keys (createdVisitors ?st1)"
         "\<forall>n. js_get C n =
            map_option (\<lambda>l. l @ filter (\<lambda>v. name v = n) (fst ?c)) (js_get (createdVisitors ?st1) n)"
      by blast
    show ?thesis
    proof (cases "fst ?c = []")
      case True
      then show ?thesis
        using loop None \<open>directiveNodes type = Some ds\<close>
        by (simp add: getVisitors_def r trace_emit createdVisitors_emit option.map_ident)
    next
      case False
      then show ?thesis
        using loop None \<open>directiveNodes type = Some ds\<close> C
        by (simp add: getVisitors_def r trace_emit createdVisitors_emit)
    qed
  qed
qed


lemma getVisitors_proj:
  assumes "set (keys (directiveVisitors env)) \<subseteq> set (keys (createdVisitors st))"
  shows "fst (getVisitors env type m st) =
           (case snd (resolve env type m) of
              None \<Rightarrow> Inr (fst (resolve env type m))
            | Some e \<Rightarrow> Inl e)"
    and "trace (snd (getVisitors env type m st)) =
           trace st @ GetVisitors m type # map Construct (fst (resolve env type m))"
    and "keys (createdVisitors (snd (getVisitors env type m st))) = keys (createdVisitors st)"
    and "snd (resolve env type m) = None \<Longrightarrow>
           js_get (createdVisitors (snd (getVisitors env type m st))) n =
             map_option (\<lambda>l. l @ filter (\<lambda>v. name v = n) (fst (resolve env type m)))
               (js_get (createdVisitors st) n)"
proof -
  from getVisitors_sem [OF assms, of type m] obtain st' where
    *: "getVisitors env type m st =
           ((case snd (resolve env type m) of
               None \<Rightarrow> Inr (fst (resolve env type m))
             | Some e \<Rightarrow> Inl e), st') \<and>
         trace st' = trace st @ GetVisitors m type # map Construct (fst (resolve env type m)) \<and>
         keys (createdVisitors st') = keys (createdVisitors st) \<and>
         (snd (resolve env type m) = None \<longrightarrow>
            (\<forall>n. js_get (createdVisitors st') n =
               map_option (\<lambda>l. l @ filter (\<lambda>v. name v = n) (fst (resolve env type m)))
                 (js_get (createdVisitors st) n)))" ..
  show "fst (getVisitors env type m st) =
           (case snd (resolve env type m) of
              None \<Rightarrow> Inr (fst (resolve env type m))
            | Some e \<Rightarrow> Inl e)"
    using * by simp
  show "trace (snd (getVisitors env type m st)) =
           trace st @ GetVisitors m type # map Construct (fst (resolve env type m))"
    using * by simp
  show "keys (createdVisitors (snd (getVisitors env type m st))) = keys (createdVisitors st)"
    using * by simp
  show "js_get (createdVisitors (snd (getVisitors env type m st))) n =
             map_option (\<lambda>l. l @ filter (\<lambda>v. name v = n) (fst (resolve env type m)))
               (js_get (createdVisitors st) n)"
    if "snd (resolve env type m) = None"
    using * that by simp
qed

lemma constructed_append: "constructed (es @ fs) = constructed es @ constructed fs"
  by (induction es rule: constructed.induct) auto

lemma dispatched_append: "dispatched (es @ fs) = dispatched es @ dispatched fs"
  by (induction es rule: dispatched.induct) auto

lemma type_calls_append: "type_calls (es @ fs) = type_calls es @ type_calls fs"
  by (induction es rule: type_calls.induct) auto

lemma constructed_map_Construct: "constructed (map Construct vs) = vs"
  by (induction vs) auto

lemma constructed_map_Dispatch: "constructed (map (\<lambda>v. Dispatch m v t d) vs) = []"
  by (induction vs) auto

lemma dispatched_map_Construct: "dispatched (map Construct vs) = []"
  by (induction vs) auto

lemma dispatched_map_Dispatch: "dispatched (map (\<lambda>v. Dispatch m v t d) vs) = vs"
  by (induction vs) auto

lemma type_calls_map_Construct: "type_calls (map Construct vs) = []"
  by (induction vs) auto

lemma type_calls_map_Dispatch: "type_calls (map (\<lambda>v. Dispatch m v t d) vs) = []"
  by (induction vs) auto

lemma constructed_call_trace:
  "constructed (call_trace env (m, t, d)) = fst (resolve env t m)"
  by (simp add: call_trace_def constructed_append constructed_map_Construct
        constructed_map_Dispatch split: option.splits)

lemma dispatched_call_trace:
  "dispatched (call_trace env (m, t, d)) =
     (case snd (resolve env t m) of None \<Rightarrow> fst (resolve env t m) | Some e \<Rightarrow> [])"
  by (simp add: call_trace_def dispatched_append dispatched_map_Construct
        dispatched_map_Dispatch split: option.splits)

lemma callVisitorMethods_proj:
  assumes "set (keys (directiveVisitors env)) \<subseteq> set (keys (createdVisitors st))"
  shows "fst (callVisitorMethods env m t d st) =
           (case call_error env (m, t, d) of None \<Rightarrow> Inr () | Some e \<Rightarrow> Inl e)"
    and "trace (snd (callVisitorMethods env m t d st)) = trace st @ call_trace env (m, t, d)"
    and "keys (createdVisitors (snd (callVisitorMethods env m t d st))) = keys (createdVisitors st)"
    and "call_error env (m, t, d) = None \<Longrightarrow>
           js_get (createdVisitors (snd (callVisitorMethods env m t d st))) n =
             map_option (\<lambda>l. l @ filter (\<lambda>v. name v = n) (constructed (call_trace env (m, t, d))))
               (js_get (createdVisitors st) n)"
proof -
  obtain r st1 where g: "getVisitors env t m st = (r, st1)"
    by (cases "getVisitors env t m st")
  note p = getVisitors_proj [OF assms, of t m, unfolded g fst_conv snd_conv]
  show "fst (callVisitorMethods env m t d st) =
           (case call_error env (m, t, d) of None \<Rightarrow> Inr () | Some e \<Rightarrow> Inl e)"
    using p(1) by (simp add: callVisitorMethods_def g call_error_def split: option.splits)
  show "trace (snd (callVisitorMethods env m t d st)) = trace st @ call_trace env (m, t, d)"
    using p(1,2)
    by (simp add: callVisitorMethods_def g call_trace_def trace_emit split: option.splits)
  show "keys (createdVisitors (snd (callVisitorMethods env m t d st))) = keys (createdVisitors st)"
    using p(1,3)
    by (simp add: callVisitorMethods_def g createdVisitors_emit split: option.splits)
  show "js_get (createdVisitors (snd (callVisitorMethods env m t d st))) n =
             map_option (\<lambda>l. l @ filter (\<lambda>v. name v = n) (constructed (call_trace env (m, t, d))))
               (js_get (createdVisitors st) n)"
    if "call_error env (m, t, d) = None"
    using p(1) p(4) [of n] that
    by (simp add: callVisitorMethods_def g createdVisitors_emit constructed_call_trace
          call_error_def)
qed

lemma calls_proj:
  assumes "set (keys (directiveVisitors env)) \<subseteq> set (keys (createdVisitors st))"
  shows "fst (forEach (\<lambda>(m, t, d). callVisitorMethods env m t d) cs st) =
           (case snd (calls_trace env cs) of None \<Rightarrow> Inr () | Some e \<Rightarrow> Inl e) \<and>
         trace (snd (forEach (\<lambda>(m, t, d). callVisitorMethods env m t d) cs st)) =
           trace st @ fst (calls_trace env cs) \<and>
         keys (createdVisitors (snd (forEach (\<lambda>(m, t, d). callVisitorMethods env m t d) cs st))) =
           keys (createdVisitors st) \<and>
         (snd (calls_trace env cs) = None \<longrightarrow>
            (\<forall>n. js_get (createdVisitors
                     (snd (forEach (\<lambda>(m, t, d). callVisitorMethods env m t d) cs st))) n =
               map_option (\<lambda>l. l @ filter (\<lambda>v. name v = n) (constructed (fst (calls_trace env cs))))
                 (js_get (createdVisitors st) n)))"
  using assms
proof (induction cs arbitrary: st)
  case Nil
  then show ?case by (simp add: option.map_ident)
next
  case (Cons c cs)
  obtain m t d where c: "c = (m, t, d)" by (cases c)
  obtain r st1 where g: "callVisitorMethods env m t d st = (r, st1)"
    by (cases "callVisitorMethods env m t d st")
  note p = callVisitorMethods_proj [OF Cons.prems, of m t d, unfolded g fst_conv snd_conv]
  show ?case
  proof (cases "call_error env c")
    case (Some e)
    then show ?thesis
      using p(1,2,3) by (simp add: c g)
  next
    case None
    then have r: "r = Inr ()"
      using p(1) by (simp add: c)
    from Cons.prems p(3)
    have "set (keys (directiveVisitors env)) \<subseteq> set (keys (createdVisitors st1))"
      by simp
    note ih = Cons.IH [OF this]
    have step: "forEach (\<lambda>(m, t, d). callVisitorMethods env m t d) (c # cs) st =
                  forEach (\<lambda>(m, t, d). callVisitorMethods env m t d) cs st1"
      by (simp add: c g r)
    have c1: "js_get (createdVisitors st1) n =
             map_option (\<lambda>l. l @ filter (\<lambda>v. name v = n) (constructed (call_trace env c)))
               (js_get (createdVisitors st) n)" for n
      using p(4) [of n] None by (simp add: c)
    show ?thesis
      unfolding step
    proof (intro conjI impI allI)
      show "fst (forEach (\<lambda>(m, t, d). callVisitorMethods env m t d) cs st1) =
              (case snd (calls_trace env (c # cs)) of None \<Rightarrow> Inr () | Some e \<Rightarrow> Inl e)"
        using ih None by simp
      show "trace (snd (forEach (\<lambda>(m, t, d). callVisitorMethods env m t d) cs st1)) =
              trace st @ fst (calls_trace env (c # cs))"
        using ih None p(2) by (simp add: c)
      show "keys (createdVisitors (snd (forEach (\<lambda>(m, t, d). callVisitorMethods env m t d) cs st1)))
              = keys (createdVisitors st)"
        using ih p(3) by simp
      fix n
      assume "snd (calls_trace env (c # cs)) = None"
      then have e: "snd (calls_trace env cs) = None"
        using None by simp
      with ih have "js_get (createdVisitors
                     (snd (forEach (\<lambda>(m, t, d). callVisitorMethods env m t d) cs st1))) n =
               map_option (\<lambda>l. l @ filter (\<lambda>v. name v = n) (constructed (fst (calls_trace env cs))))
                 (js_get (createdVisitors st1) n)"
        by simp
      then show "js_get (createdVisitors
                     (snd (forEach (\<lambda>(m, t, d). callVisitorMethods env m t d) cs st1))) n =
               map_option (\<lambda>l. l @ filter (\<lambda>v. name v = n)
                    (constructed (fst (calls_trace env (c # cs)))))
                 (js_get (createdVisitors st) n)"
        using None c1 [of n]
        by (cases "js_get (createdVisitors st) n") (simp_all add: constructed_append)
    qed
  qed
qed

lemma keys_Nil: "keys [] = []"
  by (simp add: keys_def)

lemma js_get_Nil: "js_get [] n = None"
  by (simp add: js_get_def)

lemma keys_fold_js_set_const:
  "keys (fold (\<lambda>k obj. js_set k v obj) ks obj) =
     keys obj @ filter (\<lambda>k. k \<notin> set (keys obj)) (first_occurrences ks)"
proof -
  have "fold (\<lambda>k obj. js_set k v obj) ks obj
          = fold (\<lambda>(k, x). js_set k x) (map (\<lambda>k. (k, v)) ks) obj"
    by (induction ks arbitrary: obj) auto
  then show ?thesis
    by (simp add: keys_fold_js_set comp_def)
qed

lemma js_get_fold_js_set_const:
  "js_get (fold (\<lambda>k obj. js_set k v obj) ks obj) n =
     (if n \<in> set ks then Some v else js_get obj n)"
  by (induction ks arbitrary: obj) (auto simp: js_get_js_set)

lemma visitSchema_start_props:
  "keys (createdVisitors (visitSchema_start dv)) = first_occurrences (keys dv)"
  "js_get (createdVisitors (visitSchema_start dv)) n = (if n \<in> set (keys dv) then Some [] else None)"
  "trace (visitSchema_start dv) = []"
  by (simp_all add: visitSchema_start_def keys_fold_js_set_const keys_Nil
        js_get_fold_js_set_const js_get_Nil)

lemma directiveVisitors_visitSchema_env: "directiveVisitors (visitSchema_env B gav s dv) = dv"
  by (simp add: visitSchema_env_def)

lemma visitSchema_fails:
  assumes "snd (calls_trace (visitSchema_env B gav s dv) (calls_of_schema s)) = Some e"
  shows "visitSchema B gav s dv =
           (Inl e, fst (calls_trace (visitSchema_env B gav s dv) (calls_of_schema s)))"
proof -
  let ?env = "visitSchema_env B gav s dv"
  let ?st = "visitSchema_start dv :: 'a walk_state"
  have "set (keys (directiveVisitors ?env)) \<subseteq> set (keys (createdVisitors ?st))"
    by (simp add: directiveVisitors_visitSchema_env visitSchema_start_props set_first_occurrences)
  note p = calls_proj [OF this, of "calls_of_schema s"]
  obtain r st' where g: "visit ?env (VSchema s) ?st = (r, st')"
    by (cases "visit ?env (VSchema s) ?st")
  from p g assms show ?thesis
    by (simp add: visitSchema_def visit_schema_calls [symmetric] visitSchema_start_props)
qed

lemma visitSchema_returns:
  assumes "snd (calls_trace (visitSchema_env B gav s dv) (calls_of_schema s)) = None"
  shows "\<exists>R. visitSchema B gav s dv =
           (Inr R, fst (calls_trace (visitSchema_env B gav s dv) (calls_of_schema s))) \<and>
         keys R = first_occurrences (keys dv) \<and>
         (\<forall>n. js_get R n =
            (if n \<in> set (keys dv)
             then Some (filter (\<lambda>v. name v = n)
                    (constructed (fst (calls_trace (visitSchema_env B gav s dv) (calls_of_schema s)))))
             else None))"
proof -
  let ?env = "visitSchema_env B gav s dv"
  let ?st = "visitSchema_start dv :: 'a walk_state"
  have "set (keys (directiveVisitors ?env)) \<subseteq> set (keys (createdVisitors ?st))"
    by (simp add: directiveVisitors_visitSchema_env visitSchema_start_props set_first_occurrences)
  note p = calls_proj [OF this, of "calls_of_schema s"]
  obtain r st' where g: "visit ?env (VSchema s) ?st = (r, st')"
    by (cases "visit ?env (VSchema s) ?st")
  show ?thesis
  proof (intro exI [of _ "createdVisitors st'"] conjI allI)
    show "visitSchema B gav s dv =
            (Inr (createdVisitors st'), fst (calls_trace ?env (calls_of_schema s)))"
      using p g assms
      by (simp add: visitSchema_def visit_schema_calls [symmetric] visitSchema_start_props)
    show "keys (createdVisitors st') = first_occurrences (keys dv)"
      using p g by (simp add: visit_schema_calls [symmetric] visitSchema_start_props)
    show "js_get (createdVisitors st') n =
            (if n \<in> set (keys dv)
             then Some (filter (\<lambda>v. name v = n) (constructed (fst (calls_trace ?env (calls_of_schema s)))))
             else None)" for n
      using p g assms by (simp add: visit_schema_calls [symmetric] visitSchema_start_props)
  qed
qed

section \<open>Claims about the literal decoder\<close>

text \<open>
  Claim C2. The untyped decoder returns JavaScript \<^verbatim>\<open>null\<close> for a null literal, the
  number that \<^verbatim>\<open>parseInt(_, 10)\<close> reads from the text of an integer literal, the
  number that \<^verbatim>\<open>parseFloat\<close> reads from the text of a float literal, and the value
  itself for a string, enum or boolean literal. A list literal whose elements decode
  yields the array of their values in order. An object literal whose fields decode
  yields an object whose keys are the field names in the order of first encounter and
  in which each name is bound to the value of its last field.
\<close>

theorem valueFromASTUntyped_cases:
  assumes "list_all2 (\<lambda>v x. valueFromASTUntyped B v = Inr x) vs xs"
    and "list_all2 (\<lambda>f y. valueFromASTUntyped B (snd f) = Inr y) fs ys"
  shows "valueFromASTUntyped B NullValue = Inr JNull \<and>
         valueFromASTUntyped B (IntValue s) = Inr (JNumber (parseInt B s)) \<and>
         valueFromASTUntyped B (FloatValue s) = Inr (JNumber (parseFloat B s)) \<and>
         valueFromASTUntyped B (StringValue s) = Inr (JString s) \<and>
         valueFromASTUntyped B (EnumValue s) = Inr (JString s) \<and>
         valueFromASTUntyped B (BooleanValue b) = Inr (JBoolean b) \<and>
         valueFromASTUntyped B (ListValue vs) = Inr (JArray xs) \<and>
         (\<exists>obj. valueFromASTUntyped B (ObjectValue fs) = Inr (JObject obj) \<and>
                keys obj = first_occurrences (map fst fs) \<and>
                (\<forall>k. js_get obj k = map_of (rev (zip (map fst fs) ys)) k))"
proof -
  let ?obj = "fold (\<lambda>(k, x). js_set k x) (zip (map fst fs) ys) []"
  have len: "length fs = length ys"
    using assms(2) by (rule list_all2_lengthD)
  have "valueFromASTUntyped B (ListValue vs) = Inr (JArray xs)"
    using values_Inr_I [OF assms(1)] by simp
  moreover have "valueFromASTUntyped B (ObjectValue fs) = Inr (JObject ?obj)"
    using fields_Inr_I [OF assms(2), of "[]"] by simp
  moreover have "keys ?obj = first_occurrences (map fst fs)"
    using len by (simp add: keys_fold_js_set keys_Nil)
  moreover have "js_get ?obj k = map_of (rev (zip (map fst fs) ys)) k" for k
    by (simp add: js_get_fold_js_set)
  ultimately show ?thesis
    by simp
qed

theorem valueFromASTUntyped_cases_witness:
  "list_all2 (\<lambda>v x. valueFromASTUntyped \<lparr>parseInt = (\<lambda>s. s), parseFloat = (\<lambda>s. s)\<rparr> v = Inr x)
     [IntValue ''1'', IntValue ''2'', IntValue ''3'']
     [JNumber ''1'', JNumber ''2'', JNumber ''3''] \<and>
   list_all2 (\<lambda>f y. valueFromASTUntyped \<lparr>parseInt = (\<lambda>s. s), parseFloat = (\<lambda>s. s)\<rparr> (snd f) = Inr y)
     [(''a'', IntValue ''1''), (''b'', StringValue ''x''), (''a'', IntValue ''2'')]
     [JNumber ''1'', JString ''x'', JNumber ''2''] \<and>
   valueFromASTUntyped \<lparr>parseInt = (\<lambda>s. s), parseFloat = (\<lambda>s. s)\<rparr>
     (ListValue [IntValue ''1'', IntValue ''2'', IntValue ''3''])
     = Inr (JArray [JNumber ''1'', JNumber ''2'', JNumber ''3'']) \<and>
   (\<exists>obj. valueFromASTUntyped \<lparr>parseInt = (\<lambda>s. s), parseFloat = (\<lambda>s. s)\<rparr>
            (ObjectValue [(''a'', IntValue ''1''), (''b'', StringValue ''x''), (''a'', IntValue ''2'')])
            = Inr (JObject obj) \<and>
          keys obj = [''a'', ''b''] \<and>
          js_get obj ''a'' = Some (JNumber ''2'') \<and>
          js_get obj ''b'' = Some (JString ''x''))"
proof -
  let ?B = "\<lparr>parseInt = (\<lambda>s. s), parseFloat = (\<lambda>s. s)\<rparr> :: string builtins"
  have h1: "list_all2 (\<lambda>v x. valueFromASTUntyped ?B v = Inr x)
     [IntValue ''1'', IntValue ''2'', IntValue ''3'']
     [JNumber ''1'', JNumber ''2'', JNumber ''3'']"
    by simp
  have h2: "list_all2 (\<lambda>f y. valueFromASTUntyped ?B (snd f) = Inr y)
     [(''a'', IntValue ''1''), (''b'', StringValue ''x''), (''a'', IntValue ''2'')]
     [JNumber ''1'', JString ''x'', JNumber ''2'']"
    by simp
  from valueFromASTUntyped_cases [OF h1 h2] h1 h2 show ?thesis
    by simp
qed

section \<open>Claims about the capability query\<close>

lemma read_locations_upd: "read_locations (S(c \<mapsto> ls)) c = Some ls"
  by (cases c) auto

lemma getLocations_again:
  "getLocations c (snd (getLocations c S)) = (fst (getLocations c S), snd (getLocations c S))"
  by (cases "read_locations S c") (auto simp: getLocations_def read_locations_upd)

lemma set_getLocations_fold:
  "set (fold (\<lambda>key locations. if P key then (case g key of Some l \<Rightarrow> locations @ [l]
                                              | None \<Rightarrow> locations) else locations) ks acc) =
     set acc \<union> {l. \<exists>k\<in>set ks. P k \<and> g k = Some l}"
  by (induction ks arbitrary: acc) (auto split: option.splits)

lemma methods_in_prototype_keys: "set (keys methodToLocationMap) \<subseteq> set (prototype_keys c)"
  by (induction c) auto

lemma shouldCall_hasOwn: "shouldCall c m \<Longrightarrow> hasOwn methodToLocationMap m"
  by (simp add: shouldCall_def)

lemma distinct_methodToLocationMap: "distinct (map fst methodToLocationMap)"
  by (simp add: methodToLocationMap_def)

lemma set_getLocations_loop:
  "set (getLocations_loop c) = {l. \<exists>m. (m, l) \<in> set methodToLocationMap \<and> shouldCall c m}"
proof -
  have in_map: "js_get methodToLocationMap m = Some l \<longleftrightarrow> (m, l) \<in> set methodToLocationMap" for m l
    using distinct_methodToLocationMap by (simp add: js_get_def)
  have "set (getLocations_loop c) =
          {l. \<exists>k\<in>set (prototype_keys c). shouldCall c k \<and> js_get methodToLocationMap k = Some l}"
    by (simp add: getLocations_loop_def set_getLocations_fold)
  also have "\<dots> = {l. \<exists>m. (m, l) \<in> set methodToLocationMap \<and> shouldCall c m}"
  proof (intro Collect_cong iffI)
    fix l
    assume "\<exists>k\<in>set (prototype_keys c). shouldCall c k \<and> js_get methodToLocationMap k = Some l"
    then show "\<exists>m. (m, l) \<in> set methodToLocationMap \<and> shouldCall c m"
      by (auto simp: in_map)
  next
    fix l
    assume "\<exists>m. (m, l) \<in> set methodToLocationMap \<and> shouldCall c m"
    then obtain m where m: "(m, l) \<in> set methodToLocationMap" "shouldCall c m"
      by auto
    then have "m \<in> set (keys methodToLocationMap)"
      by (force simp: keys_def)
    then have "m \<in> set (prototype_keys c)"
      using methods_in_prototype_keys by auto
    with m show "\<exists>k\<in>set (prototype_keys c). shouldCall c k \<and> js_get methodToLocationMap k = Some l"
      by (auto simp: in_map)
  qed
  finally show ?thesis .
qed

lemma getLocations_first_call:
  "read_locations S c = None \<Longrightarrow>
     set (fst (getLocations c S)) = {l. \<exists>m. (m, l) \<in> set methodToLocationMap \<and> shouldCall c m}"
  by (simp add: getLocations_def set_getLocations_loop)

lemma getLocations_loop_part000_eq: "getLocations_loop_part000 c = getLocations_loop c"
proof -
  have "(\<lambda>key locations.
             if hasOwn methodToLocationMap key
             then (case prototype_get c key of
                     Some method \<Rightarrow>
                       if method \<notin> set visitorMethodStubSet
                       then (case js_get methodToLocationMap key of
                               Some l \<Rightarrow> locations @ [l]
                             | None \<Rightarrow> locations)
                       else locations
                   | None \<Rightarrow> locations)
             else locations)
        = (\<lambda>key locations.
             if shouldCall c key
             then (case js_get methodToLocationMap key of
                     Some l \<Rightarrow> locations @ [l]
                   | None \<Rightarrow> locations)
             else locations)"
  proof (intro ext)
    fix key :: string and locations :: "directive_location list"
    have "hasOwn methodToLocationMap key \<Longrightarrow> prototype_get c key \<noteq> None"
      by (induction c) (auto split: option.splits)
    then show "(if hasOwn methodToLocationMap key
             then (case prototype_get c key of
                     Some method \<Rightarrow>
                       if method \<notin> set visitorMethodStubSet
                       then (case js_get methodToLocationMap key of
                               Some l \<Rightarrow> locations @ [l]
                             | None \<Rightarrow> locations)
                       else locations
                   | None \<Rightarrow> locations)
             else locations)
        = (if shouldCall c key
             then (case js_get methodToLocationMap key of
                     Some l \<Rightarrow> locations @ [l]
                   | None \<Rightarrow> locations)
             else locations)"
      by (auto simp: shouldCall_def split: option.splits)
  qed
  then show ?thesis
    by (simp add: getLocations_loop_part000_def getLocations_loop_def)
qed

lemma getLocations_part000_eq: "getLocations_part000 c S = getLocations c S"
  by (simp add: getLocations_part000_def getLocations_def getLocations_loop_part000_eq
        split: option.splits)

text \<open>
  Claim C5. \<^verbatim>\<open>getLocations\<close> returns the locations of the visitor methods that the
  class overrides, once per class: so the comment above it says, and so it does on the
  first call of a class none of whose ancestors has been asked before
  (\<open>getLocations_first_call\<close>, \<open>getLocations_again\<close>). But the memo is the static
  property \<^verbatim>\<open>locations\<close>, which a subclass inherits. With
  \<^verbatim>\<open>class A extends SchemaDirectiveVisitor { visitObject() {...} }\<close> and
  \<^verbatim>\<open>class B extends A { visitUnion() {...} }\<close>, the call \<^verbatim>\<open>A.getLocations()\<close> stores
  \<^verbatim>\<open>[OBJECT]\<close> on \<^verbatim>\<open>A\<close>, and \<^verbatim>\<open>B.getLocations()\<close> then finds that array through
  inheritance and returns it, although \<^verbatim>\<open>B\<close> overrides \<^verbatim>\<open>visitUnion\<close> and would
  have obtained \<^verbatim>\<open>[UNION, OBJECT]\<close> when asked first. After a call on the base class
  every subclass reports no location. Both copies of the method behave so.
\<close>

theorem getLocations_inherits_memo:
  "(let A = Subclass ''A'' SchemaDirectiveVisitor [(''visitObject'', Method 1)];
        B = Subclass ''B'' A [(''visitUnion'', Method 2)]
    in fst (getLocations A Map.empty) = [OBJECT] \<and>
       fst (getLocations B (snd (getLocations A Map.empty))) = [OBJECT] \<and>
       fst (getLocations_part000 B (snd (getLocations_part000 A Map.empty))) = [OBJECT] \<and>
       shouldCall B ''visitUnion'' \<and>
       fst (getLocations B Map.empty) = [UNION, OBJECT] \<and>
       fst (getLocations A (snd (getLocations SchemaDirectiveVisitor Map.empty))) = [])"
  by code_simp

section \<open>One call, whatever the index of created visitors\<close>

lemma createdVisitors_push_trace: "trace (snd (createdVisitors_push vs st)) = trace st"
  by (induction vs arbitrary: st) (auto split: option.splits)

lemma getVisitors_trace:
  "trace (snd (getVisitors env t m st)) =
     trace st @ GetVisitors m t # map Construct (fst (resolve env t m))"
proof (cases "directiveNodes t")
  case None
  then show ?thesis
    by (simp add: getVisitors_def resolve_def trace_emit)
next
  case (Some ds)
  let ?c = "collect (map (resolve_node env t m) ds)"
  let ?st1 = "emit (map Construct (fst ?c)) (emit [GetVisitors m t] st)"
  obtain r st2 where p: "createdVisitors_push (fst ?c) ?st1 = (r, st2)"
    by (cases "createdVisitors_push (fst ?c) ?st1")
  have "trace st2 = trace ?st1"
    using createdVisitors_push_trace [of "fst ?c" ?st1] p by simp
  then show ?thesis
    using Some p
    by (cases r)
       (auto simp: getVisitors_def resolve_def directiveNodes_forEach_collect trace_emit
               Let_def
             split: option.splits)
qed

lemma getVisitors_Inr:
  assumes "fst (getVisitors env t m st) = Inr vs"
  shows "vs = fst (resolve env t m)" and "snd (resolve env t m) = None"
proof -
  have "vs = fst (resolve env t m) \<and> snd (resolve env t m) = None"
  proof (cases "directiveNodes t")
    case None
    then show ?thesis
      using assms by (simp add: getVisitors_def resolve_def)
  next
    case (Some ds)
    then show ?thesis
      using assms
      by (auto simp: getVisitors_def resolve_def directiveNodes_forEach_collect Let_def
               split: option.splits prod.splits sum.splits if_splits)
  qed
  then show "vs = fst (resolve env t m)" and "snd (resolve env t m) = None"
    by simp_all
qed

lemma callVisitorMethods_trace:
  "trace (snd (callVisitorMethods env m t d st)) =
     trace st @ GetVisitors m t # map Construct (fst (resolve env t m)) @
       (case fst (callVisitorMethods env m t d st) of
          Inr u \<Rightarrow> map (\<lambda>v. Dispatch m v t d) (fst (resolve env t m))
        | Inl e \<Rightarrow> [])"
proof -
  obtain r st1 where g: "getVisitors env t m st = (r, st1)"
    by (cases "getVisitors env t m st")
  have t1: "trace st1 = trace st @ GetVisitors m t # map Construct (fst (resolve env t m))"
    using getVisitors_trace [of env t m st] g by simp
  show ?thesis
  proof (cases r)
    case (Inl e)
    then show ?thesis
      using g t1 by (simp add: callVisitorMethods_def)
  next
    case (Inr vs)
    then have "vs = fst (resolve env t m)"
      using getVisitors_Inr(1) [of env t m st vs] g by simp
    then show ?thesis
      using g t1 Inr by (simp add: callVisitorMethods_def trace_emit)
  qed
qed

lemma callVisitorMethods_Inr:
  assumes "fst (callVisitorMethods env m t d st) = Inr u"
  shows "snd (resolve env t m) = None"
proof -
  obtain r st1 where g: "getVisitors env t m st = (r, st1)"
    by (cases "getVisitors env t m st")
  with assms obtain vs where "r = Inr vs"
    by (cases r) (auto simp: callVisitorMethods_def)
  with g show ?thesis
    using getVisitors_Inr(2) [of env t m st vs] by simp
qed

lemma resolve_visitedType:
  assumes "v \<in> set (fst (resolve env t m))"
  shows "visitedType v = t"
proof (cases "directiveNodes t")
  case None
  with assms show ?thesis by (simp add: resolve_def)
next
  case (Some ds)
  with assms have "v \<in> set (fst (collect (map (resolve_node env t m) ds)))"
    by (simp add: resolve_def)
  from collect_set [OF this] obtain dn where "resolve_node env t m dn = Some (Inr v)"
    by auto
  then show ?thesis
    by (rule resolve_node_Inr(2))
qed

lemma collect_all2:
  "snd (collect (map f ds)) = None \<Longrightarrow>
     list_all2 (\<lambda>v d. f d = Some (Inr v)) (fst (collect (map f ds))) (filter (\<lambda>d. f d \<noteq> None) ds)"
proof (induction ds)
  case Nil
  then show ?case by simp
next
  case (Cons d ds)
  show ?case
  proof (cases "f d")
    case None
    with Cons show ?thesis by simp
  next
    case (Some r)
    with Cons show ?thesis by (cases r) auto
  qed
qed

lemma resolve_node_None: "resolve_node env t m dn \<noteq> None \<longleftrightarrow> responds env m dn"
  by (auto simp: resolve_node_def responds_def split: option.splits)

lemma resolve_all2:
  assumes "directiveNodes t = Some ds" and "snd (resolve env t m) = None"
  shows "list_all2 (\<lambda>v dn. resolve_node env t m dn = Some (Inr v))
           (fst (resolve env t m)) (filter (responds env m) ds)"
proof -
  have "list_all2 (\<lambda>v dn. resolve_node env t m dn = Some (Inr v))
           (fst (collect (map (resolve_node env t m) ds)))
           (filter (\<lambda>dn. resolve_node env t m dn \<noteq> None) ds)"
    using assms by (intro collect_all2) (simp add: resolve_def)
  moreover have "filter (\<lambda>dn. resolve_node env t m dn \<noteq> None) ds = filter (responds env m) ds"
    by (intro filter_cong refl) (rule resolve_node_None)
  ultimately show ?thesis
    using assms(1) by (simp add: resolve_def)
qed

section \<open>Reading the trace of a list of calls\<close>

lemma type_calls_call_trace:
  "type_calls (call_trace env (m, t, d)) = type_calls [GetVisitors m t]"
proof -
  have "type_calls (call_trace env (m, t, d)) = type_calls ([GetVisitors m t] @
          (map Construct (fst (resolve env t m)) @
            (case snd (resolve env t m) of
               None \<Rightarrow> map (\<lambda>v. Dispatch m v t d) (fst (resolve env t m))
             | Some e \<Rightarrow> [])))"
    by (simp add: call_trace_def)
  also have "\<dots> = type_calls [GetVisitors m t]"
    unfolding type_calls_append
    by (simp add: type_calls_map_Construct type_calls_map_Dispatch split: option.splits)
  finally show ?thesis .
qed

lemma type_calls_calls_trace:
  "prefix (type_calls (fst (calls_trace env cs)))
          (concat (map (\<lambda>(m, t, d). type_calls [GetVisitors m t]) cs)) \<and>
   (snd (calls_trace env cs) = None \<longrightarrow>
      type_calls (fst (calls_trace env cs)) =
        concat (map (\<lambda>(m, t, d). type_calls [GetVisitors m t]) cs))"
proof (induction cs)
  case Nil
  then show ?case by simp
next
  case (Cons c cs)
  obtain m t d where c: "c = (m, t, d)" by (cases c)
  show ?case
  proof (cases "call_error env c")
    case None
    with Cons show ?thesis
      by (simp add: c type_calls_append type_calls_call_trace del: type_calls.simps)
  next
    case (Some e)
    then show ?thesis
      by (simp add: c type_calls_call_trace del: type_calls.simps)
  qed
qed

lemma type_calls_calls_below:
  "concat (map (\<lambda>(m, t, d). type_calls [GetVisitors m t]) (calls_below ty)) = []"
proof (cases ty)
  case (GraphQLObjectType x)
  then show ?thesis
    by (auto simp: calls_of_fields_def calls_of_field_def split: option.splits)
next
  case (GraphQLInterfaceType x)
  then show ?thesis
    by (auto simp: calls_of_fields_def calls_of_field_def split: option.splits)
qed auto

lemma type_calls_calls_of_type:
  "concat (map (\<lambda>(m, t, d). type_calls [GetVisitors m t]) (calls_of_type ty)) =
     [(visit_method ty, VNamedType ty)]"
  using type_calls_calls_below [of ty] by (simp add: calls_of_type_def)

lemma type_calls_calls_of_types:
  "concat (map (\<lambda>(m, t, d). type_calls [GetVisitors m t]) (concat (map calls_of_type tys))) =
     map (\<lambda>ty. (visit_method ty, VNamedType ty)) tys"
  by (induction tys) (simp_all add: type_calls_calls_of_type del: type_calls.simps)

lemma type_calls_calls_of_schema:
  "concat (map (\<lambda>(m, t, d). type_calls [GetVisitors m t]) (calls_of_schema s)) =
     (''visitSchema'', VSchema s) #
     map (\<lambda>(typeName, namedType). (visit_method namedType, VNamedType namedType))
       (filter (\<lambda>(typeName, namedType). \<not> prefix ''__'' typeName) (schema_typeMap s))"
proof -
  have a: "map (\<lambda>ty. (visit_method ty, VNamedType ty)) (visited_types s) =
        map (\<lambda>(typeName, namedType). (visit_method namedType, VNamedType namedType))
          (filter (\<lambda>(typeName, namedType). \<not> prefix ''__'' typeName) (schema_typeMap s))"
    by (simp add: visited_types_def case_prod_unfold comp_def)
  have "concat (map (\<lambda>(m, t, d). type_calls [GetVisitors m t]) (calls_of_schema s)) =
          type_calls [GetVisitors ''visitSchema'' (VSchema s)] @
          concat (map (\<lambda>(m, t, d). type_calls [GetVisitors m t])
            (concat (map calls_of_type (visited_types s))))"
    by (simp only: calls_of_schema_def list.map concat.simps prod.case)
  also have "\<dots> = (''visitSchema'', VSchema s) #
          map (\<lambda>ty. (visit_method ty, VNamedType ty)) (visited_types s)"
    by (simp only: type_calls_calls_of_types) simp
  finally show ?thesis
    by (simp only: a)
qed

lemma visitSchema_trace:
  "snd (visitSchema B gav s dv) =
     fst (calls_trace (visitSchema_env B gav s dv) (calls_of_schema s))"
proof (cases "snd (calls_trace (visitSchema_env B gav s dv) (calls_of_schema s))")
  case None
  from visitSchema_returns [OF this] show ?thesis by auto
next
  case (Some e)
  from visitSchema_fails [OF this] show ?thesis by simp
qed

lemma visitSchema_Inr:
  "fst (visitSchema B gav s dv) = Inr R \<Longrightarrow>
     snd (calls_trace (visitSchema_env B gav s dv) (calls_of_schema s)) = None"
  using visitSchema_fails [of B gav s dv]
  by (cases "snd (calls_trace (visitSchema_env B gav s dv) (calls_of_schema s))") auto

lemma visitSchema_Inl:
  "fst (visitSchema B gav s dv) = Inl e \<Longrightarrow>
     snd (calls_trace (visitSchema_env B gav s dv) (calls_of_schema s)) = Some e"
  using visitSchema_fails [of B gav s dv] visitSchema_returns [of B gav s dv]
  by (cases "snd (calls_trace (visitSchema_env B gav s dv) (calls_of_schema s))") auto

section \<open>Claims about the order of the walk\<close>

lemma visit_typeMap_filter:
  "visit_typeMap env tm st =
     forEach (\<lambda>(typeName, namedType). visit env (VNamedType namedType))
       (filter (\<lambda>(typeName, namedType). \<not> prefix ''__'' typeName) tm) st"
proof (induction tm arbitrary: st)
  case Nil
  then show ?case by simp
next
  case (Cons p tm)
  obtain k t where p: "p = (k, t)" by (cases p)
  show ?case
    by (simp add: p Cons.IH split: prod.splits sum.splits)
qed

lemma calls_of_schema_unfold:
  "calls_of_schema s =
     (''visitSchema'', VSchema s, NoDetails) #
     concat (map (\<lambda>(typeName, namedType). calls_of_type namedType)
       (filter (\<lambda>(typeName, namedType). \<not> prefix ''__'' typeName) (schema_typeMap s)))"
  by (simp add: calls_of_schema_def visited_types_def case_prod_unfold comp_def)

text \<open>
  Claim C7. A walk begins with \<^verbatim>\<open>callVisitorMethods('visitSchema', type)\<close> on the
  schema itself: the call of \<^verbatim>\<open>getVisitors\<close>, the visitors it constructs and their
  dispatch come before everything else in the trace. After it, \<^verbatim>\<open>visit\<close> on the
  schema is one call of \<^verbatim>\<open>visit\<close> for each entry of the type map whose key does not
  start with \<^verbatim>\<open>__\<close>, in the order of the table, and nothing else: an entry with a
  reserved key adds no call, no event and no visitor, neither for the type nor for its
  fields, arguments or values. The whole trace of \<^verbatim>\<open>visitSchema\<close> is the trace of the
  call on the schema followed by the traces of the calls of each such entry (the type,
  then what lies below it), up to the first exception. The calls of \<^verbatim>\<open>getVisitors\<close>
  on the schema and on named types, in the order of the trace, are the schema followed
  by these entries, each with the method of its kind: all of them when
  \<^verbatim>\<open>visitSchema\<close> returns, an initial part of them when it throws. So every named
  type of the table that is not reserved is visited once, and no reserved one is.
\<close>

theorem visitSchema_type_order:
  "(\<exists>rest. snd (visitSchema B gav s dv) =
            call_trace (visitSchema_env B gav s dv) (''visitSchema'', VSchema s, NoDetails) @ rest) \<and>
   visit env (VSchema s) st =
     (case callVisitorMethods env ''visitSchema'' (VSchema s) NoDetails st of
        (Inl e, st1) \<Rightarrow> (Inl e, st1)
      | (Inr u, st1) \<Rightarrow>
          forEach (\<lambda>(typeName, namedType). visit env (VNamedType namedType))
            (filter (\<lambda>(typeName, namedType). \<not> prefix ''__'' typeName) (schema_typeMap s)) st1) \<and>
   snd (visitSchema B gav s dv) =
     fst (calls_trace (visitSchema_env B gav s dv)
            ((''visitSchema'', VSchema s, NoDetails) #
             concat (map (\<lambda>(typeName, namedType). calls_of_type namedType)
               (filter (\<lambda>(typeName, namedType). \<not> prefix ''__'' typeName)
                  (schema_typeMap s))))) \<and>
   prefix (type_calls (snd (visitSchema B gav s dv)))
     ((''visitSchema'', VSchema s) #
      map (\<lambda>(typeName, namedType). (visit_method namedType, VNamedType namedType))
        (filter (\<lambda>(typeName, namedType). \<not> prefix ''__'' typeName) (schema_typeMap s))) \<and>
   ((\<exists>R. fst (visitSchema B gav s dv) = Inr R) \<longrightarrow>
      type_calls (snd (visitSchema B gav s dv)) =
        (''visitSchema'', VSchema s) #
        map (\<lambda>(typeName, namedType). (visit_method namedType, VNamedType namedType))
          (filter (\<lambda>(typeName, namedType). \<not> prefix ''__'' typeName) (schema_typeMap s)))"
proof -
  let ?env = "visitSchema_env B gav s dv"
  have first: "\<exists>rest. snd (visitSchema B gav s dv) =
                  call_trace ?env (''visitSchema'', VSchema s, NoDetails) @ rest"
    unfolding visitSchema_trace
    by (simp add: calls_of_schema_def split: option.splits)
  have walk: "visit env (VSchema s) st =
     (case callVisitorMethods env ''visitSchema'' (VSchema s) NoDetails st of
        (Inl e, st1) \<Rightarrow> (Inl e, st1)
      | (Inr u, st1) \<Rightarrow>
          forEach (\<lambda>(typeName, namedType). visit env (VNamedType namedType))
            (filter (\<lambda>(typeName, namedType). \<not> prefix ''__'' typeName) (schema_typeMap s)) st1)"
    by (simp add: visit_typeMap_filter split: prod.splits sum.splits)
  have whole: "snd (visitSchema B gav s dv) =
     fst (calls_trace ?env
            ((''visitSchema'', VSchema s, NoDetails) #
             concat (map (\<lambda>(typeName, namedType). calls_of_type namedType)
               (filter (\<lambda>(typeName, namedType). \<not> prefix ''__'' typeName)
                  (schema_typeMap s)))))"
    unfolding visitSchema_trace calls_of_schema_unfold ..
  have ok: "snd (calls_trace ?env (calls_of_schema s)) = None"
    if "\<exists>R. fst (visitSchema B gav s dv) = Inr R"
    using that visitSchema_Inr [of B gav s dv] by auto
  have calls: "prefix (type_calls (snd (visitSchema B gav s dv)))
     ((''visitSchema'', VSchema s) #
      map (\<lambda>(typeName, namedType). (visit_method namedType, VNamedType namedType))
        (filter (\<lambda>(typeName, namedType). \<not> prefix ''__'' typeName) (schema_typeMap s))) \<and>
   ((\<exists>R. fst (visitSchema B gav s dv) = Inr R) \<longrightarrow>
      type_calls (snd (visitSchema B gav s dv)) =
        (''visitSchema'', VSchema s) #
        map (\<lambda>(typeName, namedType). (visit_method namedType, VNamedType namedType))
          (filter (\<lambda>(typeName, namedType). \<not> prefix ''__'' typeName) (schema_typeMap s)))"
    using ok type_calls_calls_trace [of ?env "calls_of_schema s"]
    unfolding visitSchema_trace type_calls_calls_of_schema
    by blast
  from first walk whole calls [THEN conjunct1] calls [THEN conjunct2] show ?thesis
    by (intro conjI)
qed

text \<open>
  Claim C8. The visit of a union type is the one call
  \<^verbatim>\<open>callVisitorMethods('visitUnion', type)\<close>. Whatever it adds to the trace is the
  call of \<^verbatim>\<open>getVisitors\<close> for \<^verbatim>\<open>visitUnion\<close> on the union, the construction of
  visitors whose \<^verbatim>\<open>visitedType\<close> is the union, and calls of their \<^verbatim>\<open>visitUnion\<close>
  method on the union: no event concerns a member type, whose node is an object type.
\<close>

theorem visit_union_only_union:
  "visit env (VNamedType (GraphQLUnionType u)) st =
     callVisitorMethods env ''visitUnion'' (VNamedType (GraphQLUnionType u)) NoDetails st \<and>
   (\<exists>es. trace (snd (visit env (VNamedType (GraphQLUnionType u)) st)) = trace st @ es \<and>
         list_all (event_at ''visitUnion'' (VNamedType (GraphQLUnionType u))) es \<and>
         list_all (\<lambda>member.
             list_all (\<lambda>e. \<not> event_at ''visitObject'' (VNamedType (GraphQLObjectType member)) e) es)
           (union_types u))"
proof -
  let ?t = "VNamedType (GraphQLUnionType u)"
  let ?vs = "fst (resolve env ?t ''visitUnion'')"
  let ?es = "GetVisitors ''visitUnion'' ?t # map Construct ?vs @
       (case fst (callVisitorMethods env ''visitUnion'' ?t NoDetails st) of
          Inr u \<Rightarrow> map (\<lambda>v. Dispatch ''visitUnion'' v ?t NoDetails) ?vs
        | Inl e \<Rightarrow> [])"
  have vt: "visitedType v = ?t" if "v \<in> set ?vs" for v
    using that by (rule resolve_visitedType)
  have at: "list_all (event_at ''visitUnion'' ?t) ?es"
    using vt by (auto simp: list_all_iff split: sum.splits)
  have "\<not> event_at ''visitObject'' (VNamedType (GraphQLObjectType member)) e"
    if "event_at ''visitUnion'' ?t e" for e member
    using that by (cases e) auto
  with at have "list_all (\<lambda>e. \<not> event_at ''visitObject'' (VNamedType (GraphQLObjectType member)) e) ?es"
    for member
    unfolding list_all_iff by blast
  then have mem: "list_all (\<lambda>member.
             list_all (\<lambda>e. \<not> event_at ''visitObject'' (VNamedType (GraphQLObjectType member)) e) ?es)
           (union_types u)"
    unfolding list_all_iff [of _ "union_types u"] by blast
  have "trace (snd (visit env ?t st)) = trace st @ ?es"
    by (simp add: callVisitorMethods_trace)
  with at mem show ?thesis
    by (intro conjI exI [of _ ?es]) simp_all
qed

lemma dispatched_calls_trace:
  "snd (calls_trace env cs) = None \<Longrightarrow>
     dispatched (fst (calls_trace env cs)) = constructed (fst (calls_trace env cs))"
proof (induction cs)
  case Nil
  then show ?case by simp
next
  case (Cons c cs)
  obtain m t d where c: "c = (m, t, d)" by (cases c)
  from Cons.prems have e: "call_error env c = None" "snd (calls_trace env cs) = None"
    by (auto split: option.splits)
  then have "snd (resolve env t m) = None"
    by (simp add: c call_error_def)
  then show ?case
    using e Cons.IH
    by (simp add: c dispatched_append constructed_append dispatched_call_trace
          constructed_call_trace)
qed

text \<open>
  Claim C9. When \<^verbatim>\<open>callVisitorMethods\<close> returns on a node with directive nodes, it
  has constructed one visitor for each directive node that has a class passing
  \<^verbatim>\<open>shouldCall\<close>, in the order of the directive nodes, and then called the method on
  these visitors in the same order. When \<^verbatim>\<open>visitSchema\<close> returns, the visitors were
  dispatched in the order of their construction, and the list it returns under a name
  holds the visitors of that name in the order of their construction.
\<close>

theorem visitors_in_source_order:
  "(fst (callVisitorMethods env m t d st) = Inr () \<and> directiveNodes t = Some ds \<longrightarrow>
      (\<exists>vs. trace (snd (callVisitorMethods env m t d st)) =
               trace st @ GetVisitors m t # map Construct vs @ map (\<lambda>v. Dispatch m v t d) vs \<and>
            list_all2 (\<lambda>v dn. name v = dn_name dn \<and> visitedType v = t \<and>
                          directive_args_of env dn = Inr (args v))
              vs (filter (responds env m) ds))) \<and>
   (fst (visitSchema B gav s dv) = Inr R \<longrightarrow>
      dispatched (snd (visitSchema B gav s dv)) = constructed (snd (visitSchema B gav s dv)) \<and>
      keys R = first_occurrences (keys dv) \<and>
      (\<forall>n. js_get R n =
         (if n \<in> set (keys dv)
          then Some (filter (\<lambda>v. name v = n) (constructed (snd (visitSchema B gav s dv))))
          else None)))"
proof (intro conjI impI)
  assume a: "fst (callVisitorMethods env m t d st) = Inr () \<and> directiveNodes t = Some ds"
  let ?vs = "fst (resolve env t m)"
  from a have ok: "snd (resolve env t m) = None"
    using callVisitorMethods_Inr [of env m t d st] by simp
  have "list_all2 (\<lambda>v dn. resolve_node env t m dn = Some (Inr v)) ?vs (filter (responds env m) ds)"
    using a ok by (intro resolve_all2) simp_all
  then have "list_all2 (\<lambda>v dn. name v = dn_name dn \<and> visitedType v = t \<and>
                          directive_args_of env dn = Inr (args v))
              ?vs (filter (responds env m) ds)"
    by (rule list_all2_mono) (auto dest: resolve_node_Inr)
  moreover have "trace (snd (callVisitorMethods env m t d st)) =
               trace st @ GetVisitors m t # map Construct ?vs @ map (\<lambda>v. Dispatch m v t d) ?vs"
    using a callVisitorMethods_trace [of env m t d st] by simp
  ultimately show "\<exists>vs. trace (snd (callVisitorMethods env m t d st)) =
               trace st @ GetVisitors m t # map Construct vs @ map (\<lambda>v. Dispatch m v t d) vs \<and>
            list_all2 (\<lambda>v dn. name v = dn_name dn \<and> visitedType v = t \<and>
                          directive_args_of env dn = Inr (args v))
              vs (filter (responds env m) ds)"
    by blast
next
  assume a: "fst (visitSchema B gav s dv) = Inr R"
  let ?ct = "calls_trace (visitSchema_env B gav s dv) (calls_of_schema s)"
  from a have ok: "snd ?ct = None"
    by (rule visitSchema_Inr)
  from visitSchema_returns [OF ok] a obtain
    k: "keys R = first_occurrences (keys dv)" and
    g: "\<forall>n. js_get R n =
            (if n \<in> set (keys dv) then Some (filter (\<lambda>v. name v = n) (constructed (fst ?ct)))
             else None)"
    by auto
  show "dispatched (snd (visitSchema B gav s dv)) = constructed (snd (visitSchema B gav s dv))"
    using dispatched_calls_trace [OF ok] by (simp add: visitSchema_trace)
  show "keys R = first_occurrences (keys dv)"
    by (rule k)
  show "\<forall>n. js_get R n =
         (if n \<in> set (keys dv)
          then Some (filter (\<lambda>v. name v = n) (constructed (snd (visitSchema B gav s dv))))
          else None)"
    using g by (simp add: visitSchema_trace)
qed

section \<open>Claims about nodes without directives\<close>

lemma directiveNodes_None:
  "directiveNodes t = None \<longleftrightarrow>
     astNode t = None \<or> (\<exists>node. astNode t = Some node \<and> directives node = None)"
  by (auto simp: directiveNodes_def split: option.splits)

lemma calls_trace_no_nodes:
  "list_all (\<lambda>(m, t, d). directiveNodes t = None) cs \<Longrightarrow>
     calls_trace env cs = (map (\<lambda>(m, t, d). GetVisitors m t) cs, None)"
  by (induction cs) (auto simp: call_error_def call_trace_def resolve_def)

lemma field_without_astNodes_calls:
  assumes "field_astNode f = None"
    and "case field_args f of None \<Rightarrow> True | Some as \<Rightarrow> list_all (\<lambda>a. arg_astNode a = None) as"
  shows "list_all (\<lambda>(m, t, d). directiveNodes t = None) (calls_of_field ty f)"
  using assms
  by (cases "field_args f") (auto simp: calls_of_field_def directiveNodes_def list_all_iff)

lemma fields_without_astNodes_calls:
  assumes "list_all (\<lambda>(key, f). field_astNode f = None \<and>
                 (case field_args f of None \<Rightarrow> True
                  | Some as \<Rightarrow> list_all (\<lambda>a. arg_astNode a = None) as)) (getFields ty)"
  shows "list_all (\<lambda>(m, t, d). directiveNodes t = None) (calls_of_fields ty)"
proof -
  have "list_all (\<lambda>(m, t, d). directiveNodes t = None) (calls_of_field ty f)"
    if "(key, f) \<in> set (getFields ty)" for key f
  proof (rule field_without_astNodes_calls)
    from assms that show "field_astNode f = None"
      by (auto simp: list_all_iff)
    from assms that
    show "case field_args f of None \<Rightarrow> True | Some as \<Rightarrow> list_all (\<lambda>a. arg_astNode a = None) as"
      by (auto simp: list_all_iff)
  qed
  then show ?thesis
    by (fastforce simp: calls_of_fields_def list_all_iff)
qed

lemma type_without_astNodes_calls:
  "type_without_astNodes ty \<Longrightarrow> list_all (\<lambda>(m, t, d). directiveNodes t = None) (calls_of_type ty)"
proof (cases ty)
  case (GraphQLObjectType x)
  assume "type_without_astNodes ty"
  with GraphQLObjectType show ?thesis
    using fields_without_astNodes_calls [of ty]
    by (simp add: calls_of_type_def directiveNodes_def)
next
  case (GraphQLInterfaceType x)
  assume "type_without_astNodes ty"
  with GraphQLInterfaceType show ?thesis
    using fields_without_astNodes_calls [of ty]
    by (simp add: calls_of_type_def directiveNodes_def)
next
  case (GraphQLInputObjectType x)
  assume "type_without_astNodes ty"
  with GraphQLInputObjectType show ?thesis
    by (auto simp: list_all_iff calls_of_type_def directiveNodes_def)
next
  case (GraphQLScalarType x)
  assume "type_without_astNodes ty"
  with GraphQLScalarType show ?thesis
    by (auto simp: calls_of_type_def directiveNodes_def)
next
  case (GraphQLUnionType x)
  assume "type_without_astNodes ty"
  with GraphQLUnionType show ?thesis
    by (auto simp: calls_of_type_def directiveNodes_def)
next
  case (GraphQLEnumType x)
  assume "type_without_astNodes ty"
  with GraphQLEnumType show ?thesis
    by (auto simp: list_all_iff calls_of_type_def directiveNodes_def)
qed

lemma without_astNodes_calls:
  assumes "without_astNodes s"
  shows "list_all (\<lambda>(m, t, d). directiveNodes t = None) (calls_of_schema s)"
proof -
  have "list_all type_without_astNodes (visited_types s)"
    using assms by (auto simp: without_astNodes_def visited_types_def list_all_iff)
  then have "list_all (\<lambda>(m, t, d). directiveNodes t = None) (concat (map calls_of_type (visited_types s)))"
    using type_without_astNodes_calls by (fastforce simp: list_all_iff)
  moreover have "directiveNodes (VSchema s) = None"
    using assms by (simp add: without_astNodes_def directiveNodes_def)
  ultimately show ?thesis
    by (simp add: calls_of_schema_def)
qed

lemma constructed_GetVisitors: "constructed (map (\<lambda>(m, t, d). GetVisitors m t) cs) = []"
  by (induction cs) auto

lemma dispatched_GetVisitors: "dispatched (map (\<lambda>(m, t, d). GetVisitors m t) cs) = []"
  by (induction cs) auto

text \<open>
  Claim C10. On a node whose AST node is absent, or whose AST node has no list of
  directives, \<^verbatim>\<open>getVisitors\<close> returns the empty array and changes nothing (the model
  notes the call in the trace); \<^verbatim>\<open>getDirectives\<close> of the second copy does the same.
  For a schema none of whose objects has an AST node, \<^verbatim>\<open>visitSchema\<close> returns, with
  the empty list under every name of the handler table, and no visitor has been
  constructed or dispatched, whatever the table holds.
\<close>

theorem no_astNode_no_visitors:
  "((astNode t = None \<or> (\<exists>node. astNode t = Some node \<and> directives node = None)) \<longrightarrow>
      getVisitors env t m st = (Inr [], emit [GetVisitors m t] st) \<and>
      getDirectives env t st = (Inr [], st)) \<and>
   (without_astNodes s \<longrightarrow>
      (\<exists>R. fst (visitSchema B gav s dv) = Inr R \<and>
           keys R = first_occurrences (keys dv) \<and>
           (\<forall>n. js_get R n = (if n \<in> set (keys dv) then Some [] else None))) \<and>
      constructed (snd (visitSchema B gav s dv)) = [] \<and>
      dispatched (snd (visitSchema B gav s dv)) = [])"
proof (intro conjI impI)
  assume "astNode t = None \<or> (\<exists>node. astNode t = Some node \<and> directives node = None)"
  then have n: "directiveNodes t = None"
    by (simp add: directiveNodes_None)
  then show "getVisitors env t m st = (Inr [], emit [GetVisitors m t] st)"
    by (simp add: getVisitors_def)
  from n show "getDirectives env t st = (Inr [], st)"
    by (simp add: getDirectives_def)
next
  assume a: "without_astNodes s"
  let ?env = "visitSchema_env B gav s dv"
  have ct: "calls_trace ?env (calls_of_schema s) =
              (map (\<lambda>(m, t, d). GetVisitors m t) (calls_of_schema s), None)"
    using without_astNodes_calls [OF a] by (rule calls_trace_no_nodes)
  then have ok: "snd (calls_trace ?env (calls_of_schema s)) = None"
    by simp
  from visitSchema_returns [OF ok]
  show "\<exists>R. fst (visitSchema B gav s dv) = Inr R \<and>
           keys R = first_occurrences (keys dv) \<and>
           (\<forall>n. js_get R n = (if n \<in> set (keys dv) then Some [] else None))"
    by (auto simp: ct constructed_GetVisitors)
  show "constructed (snd (visitSchema B gav s dv)) = []"
    by (simp add: visitSchema_trace ct constructed_GetVisitors)
  show "dispatched (snd (visitSchema B gav s dv)) = []"
    by (simp add: visitSchema_trace ct dispatched_GetVisitors)
qed

section \<open>Where an exception comes from\<close>

lemma collect_error:
  "snd (collect rs) = Some e \<Longrightarrow> Some (Inl e) \<in> set rs"
  by (induction rs rule: collect.induct) auto

lemma collect_fails:
  "Some (Inl e) \<in> set rs \<Longrightarrow> snd (collect rs) \<noteq> None"
  by (induction rs rule: collect.induct) auto

lemma resolve_node_Inl:
  "resolve_node env t m dn = Some (Inl e) \<longleftrightarrow> responds env m dn \<and> directive_args_of env dn = Inl e"
  by (auto simp: resolve_node_def responds_def split: option.splits sum.splits)

lemma resolve_error:
  assumes "snd (resolve env t m) = Some e"
  shows "\<exists>dn. responds env m dn \<and> directive_args_of env dn = Inl e"
proof (cases "directiveNodes t")
  case None
  with assms show ?thesis by (simp add: resolve_def)
next
  case (Some ds)
  with assms have "snd (collect (map (resolve_node env t m) ds)) = Some e"
    by (simp add: resolve_def)
  from collect_error [OF this] obtain dn where "Some (Inl e) = resolve_node env t m dn"
    by auto
  then have "resolve_node env t m dn = Some (Inl e)"
    by simp
  then show ?thesis
    by (auto simp: resolve_node_Inl)
qed

lemma resolve_fails:
  assumes "directiveNodes t = Some ds" and "dn \<in> set ds" and "responds env m dn"
    and "directive_args_of env dn = Inl e"
  shows "snd (resolve env t m) \<noteq> None"
proof -
  have "Some (Inl e) \<in> set (map (resolve_node env t m) ds)"
    using assms(2-4) resolve_node_Inl [of env t m dn e] by force
  from collect_fails [OF this] show ?thesis
    using assms(1) by (simp add: resolve_def)
qed

lemma directive_args_of_error:
  assumes "directive_args_of env dn = Inl e"
  shows "e = Error ''Unexpected value kind: Variable'' \<or>
         (\<exists>decl. getArgumentValues env decl dn = Inl e)"
proof (cases "js_get (declaredDirectives env) (dn_name dn)")
  case None
  with assms have "valueFromASTUntyped_fields (builtins env) [] (dn_arguments dn) = Inl e"
    by (simp add: directive_args_of_def arguments_forEach_fields)
  then show ?thesis
    by (simp add: decode_error(3))
next
  case (Some decl)
  with assms show ?thesis
    by (auto simp: directive_args_of_def)
qed

lemma directive_args_of_fails:
  assumes "js_get (declaredDirectives env) (dn_name dn) = None"
    and "(k, v) \<in> set (dn_arguments dn)" and "unsupported v"
  shows "\<exists>e. directive_args_of env dn = Inl e"
proof -
  have "list_ex (\<lambda>f. unsupported (snd f)) (dn_arguments dn)"
    using assms(2,3) by (force simp: list_ex_iff)
  then have "\<exists>e. valueFromASTUntyped_fields (builtins env) [] (dn_arguments dn) = Inl e"
    by (simp add: decode_fails_iff(3))
  then show ?thesis
    using assms(1) by (simp add: directive_args_of_def arguments_forEach_fields)
qed

lemma calls_trace_error:
  "snd (calls_trace env cs) = Some e \<Longrightarrow>
     \<exists>pre m t d. (m, t, d) \<in> set cs \<and> snd (resolve env t m) = Some e \<and>
       fst (calls_trace env cs) =
         pre @ GetVisitors m t # map Construct (fst (resolve env t m))"
proof (induction cs)
  case Nil
  then show ?case by simp
next
  case (Cons c cs)
  obtain m t d where c: "c = (m, t, d)" by (cases c)
  show ?case
  proof (cases "call_error env c")
    case (Some e')
    with Cons.prems have e: "e' = e" by simp
    have "fst (calls_trace env (c # cs)) = [] @ GetVisitors m t # map Construct (fst (resolve env t m))"
      using Some by (simp add: c call_trace_def call_error_def)
    moreover have "snd (resolve env t m) = Some e"
      using Some e by (simp add: c call_error_def)
    ultimately show ?thesis
      unfolding c by (intro exI [of _ "[]"] exI [of _ m] exI [of _ t] exI [of _ d]) simp
  next
    case None
    with Cons.prems have "snd (calls_trace env cs) = Some e" by simp
    from Cons.IH [OF this] obtain pre m' t' d' where
      p: "(m', t', d') \<in> set cs" "snd (resolve env t' m') = Some e"
         "fst (calls_trace env cs) = pre @ GetVisitors m' t' # map Construct (fst (resolve env t' m'))"
      by auto
    have "fst (calls_trace env (c # cs)) =
            (call_trace env c @ pre) @ GetVisitors m' t' # map Construct (fst (resolve env t' m'))"
      using None p(3) by simp
    with p(1,2) show ?thesis
      by (intro exI [of _ "call_trace env c @ pre"] exI [of _ m'] exI [of _ t'] exI [of _ d']) simp
  qed
qed

lemma calls_trace_fails:
  "(m, t, d) \<in> set cs \<Longrightarrow> snd (resolve env t m) \<noteq> None \<Longrightarrow> snd (calls_trace env cs) \<noteq> None"
  by (induction cs) (auto simp: call_error_def split: option.splits)

lemma visitSchema_not_Inl:
  "snd (calls_trace (visitSchema_env B gav s dv) (calls_of_schema s)) \<noteq> None \<Longrightarrow>
     \<exists>e. fst (visitSchema B gav s dv) = Inl e"
  using visitSchema_fails [of B gav s dv] by auto

lemma getArgumentValues_visitSchema_env: "getArgumentValues (visitSchema_env B gav s dv) = gav"
  by (simp add: visitSchema_env_def)

section \<open>Claims about failure\<close>

text \<open>
  Claim C3. A raw literal that is, or holds, a node of a kind outside the cases of the
  \<^verbatim>\<open>switch\<close> makes the decoder throw. When \<^verbatim>\<open>visitSchema\<close> throws, the exception is
  the one of the first node whose directive arguments could not be converted; the trace
  ends with the call of \<^verbatim>\<open>getVisitors\<close> on that node and the visitors constructed for
  its earlier directive nodes, so nothing is dispatched on it and no later node is
  visited; the result is the exception alone. The exception is the decoder's, or one
  thrown by the imported \<^verbatim>\<open>getArgumentValues\<close>: the code of the walk has no other
  \<^verbatim>\<open>throw\<close>. And when a node that the walk would reach has a directive node with a
  class passing \<^verbatim>\<open>shouldCall\<close>, no declaration and an unsupported literal among its
  arguments, \<^verbatim>\<open>visitSchema\<close> throws.
\<close>

theorem unsupported_literal_aborts_walk:
  "(unsupported v \<longrightarrow>
      valueFromASTUntyped B v = Inl (Error ''Unexpected value kind: Variable'')) \<and>
   (fst (visitSchema B gav s dv) = Inl e \<longrightarrow>
      (\<exists>pre m t d. (m, t, d) \<in> set (calls_of_schema s) \<and>
          snd (resolve (visitSchema_env B gav s dv) t m) = Some e \<and>
          snd (visitSchema B gav s dv) =
            pre @ GetVisitors m t #
              map Construct (fst (resolve (visitSchema_env B gav s dv) t m))) \<and>
      (e = Error ''Unexpected value kind: Variable'' \<or> (\<exists>decl dn. gav decl dn = Inl e))) \<and>
   ((m', t', d') \<in> set (calls_of_schema s) \<and> directiveNodes t' = Some ds \<and> dn' \<in> set ds \<and>
    responds (visitSchema_env B gav s dv) m' dn' \<and>
    js_get (declaredDirectives (visitSchema_env B gav s dv)) (dn_name dn') = None \<and>
    (k, v') \<in> set (dn_arguments dn') \<and> unsupported v' \<longrightarrow>
      (\<exists>e'. fst (visitSchema B gav s dv) = Inl e'))"
proof (intro conjI impI)
  assume "unsupported v"
  then obtain e0 where "valueFromASTUntyped B v = Inl e0"
    using decode_fails_iff(1) [of B v] by auto
  then show "valueFromASTUntyped B v = Inl (Error ''Unexpected value kind: Variable'')"
    using decode_error(1) [of B v e0] by simp
next
  let ?env = "visitSchema_env B gav s dv"
  assume "fst (visitSchema B gav s dv) = Inl e"
  then have f: "snd (calls_trace ?env (calls_of_schema s)) = Some e"
    by (rule visitSchema_Inl)
  from calls_trace_error [OF f]
  show "\<exists>pre m t d. (m, t, d) \<in> set (calls_of_schema s) \<and>
          snd (resolve ?env t m) = Some e \<and>
          snd (visitSchema B gav s dv) =
            pre @ GetVisitors m t # map Construct (fst (resolve ?env t m))"
    by (simp add: visitSchema_trace)
  from calls_trace_error [OF f] obtain m t where "snd (resolve ?env t m) = Some e"
    by auto
  from resolve_error [OF this] obtain dn where "directive_args_of ?env dn = Inl e"
    by auto
  from directive_args_of_error [OF this]
  show "e = Error ''Unexpected value kind: Variable'' \<or> (\<exists>decl dn. gav decl dn = Inl e)"
    by (auto simp: getArgumentValues_visitSchema_env)
next
  let ?env = "visitSchema_env B gav s dv"
  assume a: "(m', t', d') \<in> set (calls_of_schema s) \<and> directiveNodes t' = Some ds \<and> dn' \<in> set ds \<and>
    responds ?env m' dn' \<and> js_get (declaredDirectives ?env) (dn_name dn') = None \<and>
    (k, v') \<in> set (dn_arguments dn') \<and> unsupported v'"
  then obtain e0 where "directive_args_of ?env dn' = Inl e0"
    using directive_args_of_fails [of ?env dn' k v'] by auto
  with a have "snd (resolve ?env t' m') \<noteq> None"
    using resolve_fails [of t' ds dn' ?env m' e0] by simp
  with a have "snd (calls_trace ?env (calls_of_schema s)) \<noteq> None"
    using calls_trace_fails [of m' t' d' "calls_of_schema s" ?env] by simp
  then show "\<exists>e'. fst (visitSchema B gav s dv) = Inl e'"
    by (rule visitSchema_not_Inl)
qed

text \<open>
  Claim C4, as the code has it. The exception that leaves \<^verbatim>\<open>visitSchema\<close> after a
  failed decoding is the \<^verbatim>\<open>Error\<close> made in \<^verbatim>\<open>valueFromASTUntyped\<close>: its message is
  the text \<^verbatim>\<open>Unexpected value kind: \<close> followed by the kind of the offending literal,
  and nothing is added to it on the way out. Any other exception of a walk is one that
  the imported \<^verbatim>\<open>getArgumentValues\<close> threw.
\<close>

theorem walk_error_names_only_kind:
  "fst (visitSchema B gav s dv) = Inl e \<Longrightarrow>
     e = Error (''Unexpected value kind: '' @ kind (Variable x)) \<or>
     (\<exists>decl dn. gav decl dn = Inl e)"
proof -
  let ?env = "visitSchema_env B gav s dv"
  assume "fst (visitSchema B gav s dv) = Inl e"
  then have "snd (calls_trace ?env (calls_of_schema s)) = Some e"
    by (rule visitSchema_Inl)
  from calls_trace_error [OF this] obtain m t where "snd (resolve ?env t m) = Some e"
    by auto
  from resolve_error [OF this] obtain dn where "directive_args_of ?env dn = Inl e"
    by auto
  from directive_args_of_error [OF this] show ?thesis
    by (auto simp: getArgumentValues_visitSchema_env)
qed

section \<open>Claims about the arguments of a visitor\<close>

lemma getArgumentValues_loop_keys:
  "getArgumentValues_loop coerce missing supplied acc defs = Inr a \<Longrightarrow>
     set (keys acc) \<subseteq> set (keys a) \<and>
     set (keys a) \<subseteq> set (keys acc) \<union> arg_name ` set defs \<and>
     (\<forall>ad\<in>set defs. hasOwn supplied (arg_name ad) \<or> arg_defaultValue ad \<noteq> None
         \<longrightarrow> arg_name ad \<in> set (keys a))"
proof (induction defs arbitrary: acc)
  case Nil
  then show ?case by simp
next
  case (Cons ad defs)
  show ?case
  proof (cases "js_get supplied (arg_name ad)")
    case (Some valueNode)
    with Cons.prems obtain x where
      x: "coerce (arg_type ad) valueNode = Inr x"
         "getArgumentValues_loop coerce missing supplied (js_set (arg_name ad) x acc) defs = Inr a"
      by (auto split: sum.splits)
    from Cons.IH [OF x(2)] show ?thesis
      by (auto simp: keys_js_set split: if_splits)
  next
    case None
    then have ns: "\<not> hasOwn supplied (arg_name ad)"
      by (simp add: hasOwn_js_get)
    show ?thesis
    proof (cases "arg_defaultValue ad")
      case (Some x)
      with None Cons.prems
      have "getArgumentValues_loop coerce missing supplied (js_set (arg_name ad) x acc) defs = Inr a"
        by simp
      from Cons.IH [OF this] show ?thesis
        by (auto simp: keys_js_set split: if_splits)
    next
      case nd: None
      show ?thesis
      proof (cases "missing (arg_type ad)")
        case (Inl e)
        with None nd Cons.prems show ?thesis by simp
      next
        case (Inr r)
        show ?thesis
        proof (cases r)
          case None
          with \<open>js_get supplied (arg_name ad) = None\<close> nd Inr Cons.prems
          have "getArgumentValues_loop coerce missing supplied acc defs = Inr a"
            by simp
          from Cons.IH [OF this] ns nd show ?thesis
            by auto
        next
          case (Some x)
          with \<open>js_get supplied (arg_name ad) = None\<close> nd Inr Cons.prems
          have "getArgumentValues_loop coerce missing supplied (js_set (arg_name ad) x acc) defs = Inr a"
            by simp
          from Cons.IH [OF this] show ?thesis
            by (auto simp: keys_js_set split: if_splits)
        qed
      qed
    qed
  qed
qed

lemma hasOwn_fold_js_set:
  "hasOwn (fold (\<lambda>(k, v). js_set k v) ps []) k \<longleftrightarrow> hasOwn ps k"
  by (simp add: hasOwn_def keys_fold_js_set [unfolded keys_def] set_first_occurrences)

text \<open>
  Claim C6, as the code has it. The arguments of a visitor are, when the name of its
  directive node has a declaration, the object that \<^verbatim>\<open>getArgumentValues\<close> returned for
  the declaration and the directive node, as it is; otherwise an object whose keys are
  the names of the supplied arguments in the order of first encounter, each bound to
  the decoded value of its last literal. Of the imported \<^verbatim>\<open>getArgumentValues\<close> as the
  specification describes it, the result has declared names only, and among them every
  name that the occurrence supplies or that has a declared default; a declared parameter
  with neither is there or not by the rule of its type.
\<close>

theorem visitor_args_by_mode:
  "(fst (getVisitors env t m st) = Inr vs \<and> directiveNodes t = Some ds \<longrightarrow>
      list_all2 (\<lambda>v dn. name v = dn_name dn \<and>
          (case js_get (declaredDirectives env) (dn_name dn) of
             Some decl \<Rightarrow> getArgumentValues env decl dn = Inr (args v)
           | None \<Rightarrow>
               keys (args v) = first_occurrences (map fst (dn_arguments dn)) \<and>
               (\<exists>xs. list_all2 (\<lambda>a x. valueFromASTUntyped (builtins env) (snd a) = Inr x)
                        (dn_arguments dn) xs \<and>
                     (\<forall>k. js_get (args v) k = map_of (rev (zip (map fst (dn_arguments dn)) xs)) k))))
        vs (filter (responds env m) ds)) \<and>
   (getArgumentValues_spec coerce missing decl dn' = Inr a \<longrightarrow>
      set (keys a) \<subseteq> arg_name ` set (directive_args decl) \<and>
      (\<forall>ad\<in>set (directive_args decl).
          hasOwn (dn_arguments dn') (arg_name ad) \<or> arg_defaultValue ad \<noteq> None
            \<longrightarrow> arg_name ad \<in> set (keys a)))"
proof (intro conjI impI)
  assume a: "fst (getVisitors env t m st) = Inr vs \<and> directiveNodes t = Some ds"
  then have vs: "vs = fst (resolve env t m)" and ok: "snd (resolve env t m) = None"
    using getVisitors_Inr [of env t m st vs] by simp_all
  have "list_all2 (\<lambda>v dn. resolve_node env t m dn = Some (Inr v)) vs (filter (responds env m) ds)"
    unfolding vs using a ok by (intro resolve_all2) simp_all
  then show "list_all2 (\<lambda>v dn. name v = dn_name dn \<and>
          (case js_get (declaredDirectives env) (dn_name dn) of
             Some decl \<Rightarrow> getArgumentValues env decl dn = Inr (args v)
           | None \<Rightarrow>
               keys (args v) = first_occurrences (map fst (dn_arguments dn)) \<and>
               (\<exists>xs. list_all2 (\<lambda>a x. valueFromASTUntyped (builtins env) (snd a) = Inr x)
                        (dn_arguments dn) xs \<and>
                     (\<forall>k. js_get (args v) k = map_of (rev (zip (map fst (dn_arguments dn)) xs)) k))))
        vs (filter (responds env m) ds)"
  proof (rule list_all2_mono)
    fix v dn
    assume r: "resolve_node env t m dn = Some (Inr v)"
    note n = resolve_node_Inr(1) [OF r] and d = resolve_node_Inr(6) [OF r]
    show "name v = dn_name dn \<and>
          (case js_get (declaredDirectives env) (dn_name dn) of
             Some decl \<Rightarrow> getArgumentValues env decl dn = Inr (args v)
           | None \<Rightarrow>
               keys (args v) = first_occurrences (map fst (dn_arguments dn)) \<and>
               (\<exists>xs. list_all2 (\<lambda>a x. valueFromASTUntyped (builtins env) (snd a) = Inr x)
                        (dn_arguments dn) xs \<and>
                     (\<forall>k. js_get (args v) k = map_of (rev (zip (map fst (dn_arguments dn)) xs)) k)))"
    proof (cases "js_get (declaredDirectives env) (dn_name dn)")
      case (Some decl)
      with n d show ?thesis
        by (simp add: directive_args_of_def)
    next
      case None
      with d have f: "valueFromASTUntyped_fields (builtins env) [] (dn_arguments dn) = Inr (args v)"
        by (simp add: directive_args_of_def arguments_forEach_fields)
      from fields_Inr_D [OF f] obtain xs where
        xs: "list_all2 (\<lambda>f x. valueFromASTUntyped (builtins env) (snd f) = Inr x) (dn_arguments dn) xs"
        by auto
      from fields_Inr_I [OF xs, of "[]"] f
      have av: "args v = fold (\<lambda>(k, x). js_set k x) (zip (map fst (dn_arguments dn)) xs) []"
        by simp
      have len: "length (dn_arguments dn) = length xs"
        using xs by (rule list_all2_lengthD)
      have "keys (args v) = first_occurrences (map fst (dn_arguments dn))"
        using len by (simp add: av keys_fold_js_set keys_Nil)
      moreover have "js_get (args v) k = map_of (rev (zip (map fst (dn_arguments dn)) xs)) k" for k
        by (simp add: av js_get_fold_js_set)
      ultimately show ?thesis
        using None n xs by auto
    qed
  qed
next
  assume "getArgumentValues_spec coerce missing decl dn' = Inr a"
  then have "getArgumentValues_loop coerce missing
       (fold (\<lambda>(k, v). js_set k v) (dn_arguments dn') []) [] (directive_args decl) = Inr a"
    by (simp add: getArgumentValues_spec_def)
  note l = getArgumentValues_loop_keys [OF this]
  from l show "set (keys a) \<subseteq> arg_name ` set (directive_args decl)"
    by (simp add: keys_Nil)
  from l show "\<forall>ad\<in>set (directive_args decl).
          hasOwn (dn_arguments dn') (arg_name ad) \<or> arg_defaultValue ad \<noteq> None
            \<longrightarrow> arg_name ad \<in> set (keys a)"
    by (simp add: keys_Nil hasOwn_fold_js_set)
qed

section \<open>The properties on the sample schemas\<close>

text \<open>
  Each property is applied to one of the sample schemas, where its hypotheses hold by
  evaluation, and shown with the values that the walk produces there.
\<close>

theorem visitSchema_type_order_witness:
  "(\<exists>R. fst (visitSchema sample_builtins sample_getArgumentValues sample_rooted
                sample_rooted_visitors) = Inr R) \<and>
   snd (visitSchema sample_builtins sample_getArgumentValues sample_rooted sample_rooted_visitors) =
     [GetVisitors ''visitSchema'' (VSchema sample_rooted),
      Construct \<lparr>constructor = SchemaVisitor, name = ''b'', args = [],
                 visitedType = VSchema sample_rooted, schema = sample_rooted\<rparr>,
      Dispatch ''visitSchema''
        \<lparr>constructor = SchemaVisitor, name = ''b'', args = [],
         visitedType = VSchema sample_rooted, schema = sample_rooted\<rparr>
        (VSchema sample_rooted) NoDetails,
      GetVisitors ''visitObject'' (VNamedType (GraphQLObjectType sample_Root)),
      Construct \<lparr>constructor = SchemaVisitor, name = ''b'', args = [],
                 visitedType = VNamedType (GraphQLObjectType sample_Root),
                 schema = sample_rooted\<rparr>,
      Dispatch ''visitObject''
        \<lparr>constructor = SchemaVisitor, name = ''b'', args = [],
         visitedType = VNamedType (GraphQLObjectType sample_Root), schema = sample_rooted\<rparr>
        (VNamedType (GraphQLObjectType sample_Root)) NoDetails,
      GetVisitors ''visitFieldDefinition'' (VField sample_name),
      Construct \<lparr>constructor = FieldVisitor, name = ''a'', args = [],
                 visitedType = VField sample_name, schema = sample_rooted\<rparr>,
      Dispatch ''visitFieldDefinition''
        \<lparr>constructor = FieldVisitor, name = ''a'', args = [],
         visitedType = VField sample_name, schema = sample_rooted\<rparr>
        (VField sample_name) (ObjectTypeDetails (GraphQLObjectType sample_Root)),
      GetVisitors ''visitScalar'' (VNamedType (GraphQLScalarType sample_Stamp)),
      Construct \<lparr>constructor = SchemaVisitor, name = ''b'', args = [],
                 visitedType = VNamedType (GraphQLScalarType sample_Stamp),
                 schema = sample_rooted\<rparr>,
      Dispatch ''visitScalar''
        \<lparr>constructor = SchemaVisitor, name = ''b'', args = [],
         visitedType = VNamedType (GraphQLScalarType sample_Stamp), schema = sample_rooted\<rparr>
        (VNamedType (GraphQLScalarType sample_Stamp)) NoDetails] \<and>
   type_calls (snd (visitSchema sample_builtins sample_getArgumentValues sample_rooted
                      sample_rooted_visitors)) =
     [(''visitSchema'', VSchema sample_rooted),
      (''visitObject'', VNamedType (GraphQLObjectType sample_Root)),
      (''visitScalar'', VNamedType (GraphQLScalarType sample_Stamp))] \<and>
   shouldCall SchemaVisitor ''visitObject'' \<and>
   shouldCall SchemaVisitor ''visitFieldDefinition'' \<and>
   directiveNodes (VNamedType (GraphQLObjectType sample_Reserved)) =
     Some [\<lparr>dn_name = ''b'', dn_arguments = []\<rparr>] \<and>
   directiveNodes (VField sample_x) = Some [\<lparr>dn_name = ''b'', dn_arguments = []\<rparr>]"
proof -
  let ?w = "visitSchema sample_builtins sample_getArgumentValues sample_rooted
              sample_rooted_visitors"
  have "case fst ?w of Inr R \<Rightarrow> True | Inl e \<Rightarrow> False"
    by code_simp
  then have h: "\<exists>R. fst ?w = Inr R"
    by (cases "fst ?w") auto
  have ev: "fst (calls_trace
              (visitSchema_env sample_builtins sample_getArgumentValues sample_rooted
                 sample_rooted_visitors)
              ((''visitSchema'', VSchema sample_rooted, NoDetails) #
               concat (map (\<lambda>(typeName, namedType). calls_of_type namedType)
                 (filter (\<lambda>(typeName, namedType). \<not> prefix ''__'' typeName)
                    (schema_typeMap sample_rooted))))) =
     [GetVisitors ''visitSchema'' (VSchema sample_rooted),
      Construct \<lparr>constructor = SchemaVisitor, name = ''b'', args = [],
                 visitedType = VSchema sample_rooted, schema = sample_rooted\<rparr>,
      Dispatch ''visitSchema''
        \<lparr>constructor = SchemaVisitor, name = ''b'', args = [],
         visitedType = VSchema sample_rooted, schema = sample_rooted\<rparr>
        (VSchema sample_rooted) NoDetails,
      GetVisitors ''visitObject'' (VNamedType (GraphQLObjectType sample_Root)),
      Construct \<lparr>constructor = SchemaVisitor, name = ''b'', args = [],
                 visitedType = VNamedType (GraphQLObjectType sample_Root),
                 schema = sample_rooted\<rparr>,
      Dispatch ''visitObject''
        \<lparr>constructor = SchemaVisitor, name = ''b'', args = [],
         visitedType = VNamedType (GraphQLObjectType sample_Root), schema = sample_rooted\<rparr>
        (VNamedType (GraphQLObjectType sample_Root)) NoDetails,
      GetVisitors ''visitFieldDefinition'' (VField sample_name),
      Construct \<lparr>constructor = FieldVisitor, name = ''a'', args = [],
                 visitedType = VField sample_name, schema = sample_rooted\<rparr>,
      Dispatch ''visitFieldDefinition''
        \<lparr>constructor = FieldVisitor, name = ''a'', args = [],
         visitedType = VField sample_name, schema = sample_rooted\<rparr>
        (VField sample_name) (ObjectTypeDetails (GraphQLObjectType sample_Root)),
      GetVisitors ''visitScalar'' (VNamedType (GraphQLScalarType sample_Stamp)),
      Construct \<lparr>constructor = SchemaVisitor, name = ''b'', args = [],
                 visitedType = VNamedType (GraphQLScalarType sample_Stamp),
                 schema = sample_rooted\<rparr>,
      Dispatch ''visitScalar''
        \<lparr>constructor = SchemaVisitor, name = ''b'', args = [],
         visitedType = VNamedType (GraphQLScalarType sample_Stamp), schema = sample_rooted\<rparr>
        (VNamedType (GraphQLScalarType sample_Stamp)) NoDetails]"
    by code_simp
  have tm: "(''visitSchema'', VSchema sample_rooted) #
        map (\<lambda>(typeName, namedType). (visit_method namedType, VNamedType namedType))
          (filter (\<lambda>(typeName, namedType). \<not> prefix ''__'' typeName)
             (schema_typeMap sample_rooted)) =
     [(''visitSchema'', VSchema sample_rooted),
      (''visitObject'', VNamedType (GraphQLObjectType sample_Root)),
      (''visitScalar'', VNamedType (GraphQLScalarType sample_Stamp))]"
    by code_simp
  have s1: "shouldCall SchemaVisitor ''visitObject''"
    and s2: "shouldCall SchemaVisitor ''visitFieldDefinition''"
    by code_simp+
  have d1: "directiveNodes (VNamedType (GraphQLObjectType sample_Reserved) :: string visitable) =
     Some [\<lparr>dn_name = ''b'', dn_arguments = []\<rparr>]"
    by code_simp
  have d2: "directiveNodes (VField sample_x :: string visitable) =
     Some [\<lparr>dn_name = ''b'', dn_arguments = []\<rparr>]"
    by code_simp
  note t = visitSchema_type_order [where B = sample_builtins and gav = sample_getArgumentValues
      and s = sample_rooted and dv = sample_rooted_visitors and env = sample_env
      and st = sample_start]
  note whole = t [THEN conjunct2, THEN conjunct2, THEN conjunct1]
  note calls = t [THEN conjunct2, THEN conjunct2, THEN conjunct2, THEN conjunct2, THEN mp, OF h]
  from h whole [unfolded ev] calls [unfolded tm] s1 s2 d1 d2 show ?thesis
    by (intro conjI)
qed

theorem visit_union_only_union_witness:
  "(\<exists>es. trace (snd (visit sample_env (VNamedType (GraphQLUnionType sample_Result)) sample_start))
           = trace sample_start @ es \<and>
         list_all (event_at ''visitUnion'' (VNamedType (GraphQLUnionType sample_Result))) es \<and>
         list_all (\<lambda>member.
             list_all (\<lambda>e. \<not> event_at ''visitObject'' (VNamedType (GraphQLObjectType member)) e) es)
           (union_types sample_Result)) \<and>
   map name (dispatched
     (trace (snd (visit sample_env (VNamedType (GraphQLUnionType sample_Result)) sample_start))))
     = [''b'']"
proof -
  have "map name (dispatched
     (trace (snd (visit sample_env (VNamedType (GraphQLUnionType sample_Result)) sample_start))))
     = [''b'']"
    by code_simp
  with visit_union_only_union [of sample_env sample_Result sample_start, THEN conjunct2]
  show ?thesis
    by (rule conjI)
qed

theorem visitors_in_source_order_witness:
  "fst (callVisitorMethods sample_env ''visitFieldDefinition'' (VField sample_people)
          (ObjectTypeDetails (GraphQLObjectType sample_Query)) sample_start) = Inr () \<and>
   directiveNodes (VField sample_people) =
     Some [\<lparr>dn_name = ''a'', dn_arguments = [(''max'', IntValue ''50'')]\<rparr>,
           \<lparr>dn_name = ''b'', dn_arguments = []\<rparr>,
           \<lparr>dn_name = ''c'', dn_arguments = []\<rparr>] \<and>
   (\<exists>vs. trace (snd (callVisitorMethods sample_env ''visitFieldDefinition'' (VField sample_people)
                       (ObjectTypeDetails (GraphQLObjectType sample_Query)) sample_start)) =
            trace sample_start @ GetVisitors ''visitFieldDefinition'' (VField sample_people) #
              map Construct vs @
              map (\<lambda>v. Dispatch ''visitFieldDefinition'' v (VField sample_people)
                          (ObjectTypeDetails (GraphQLObjectType sample_Query))) vs \<and>
         map name vs = [''a'', ''b'']) \<and>
   (\<exists>R. fst (visitSchema sample_builtins sample_getArgumentValues sample_schema sample_visitors)
           = Inr R \<and>
        keys R = [''a'', ''b''] \<and>
        js_get R ''b'' = Some (filter (\<lambda>v. name v = ''b'')
          (constructed (snd (visitSchema sample_builtins sample_getArgumentValues sample_schema
                               sample_visitors))))) \<and>
   dispatched (snd (visitSchema sample_builtins sample_getArgumentValues sample_schema
                      sample_visitors)) =
     constructed (snd (visitSchema sample_builtins sample_getArgumentValues sample_schema
                         sample_visitors)) \<and>
   map name (constructed (snd (visitSchema sample_builtins sample_getArgumentValues sample_schema
                                 sample_visitors))) = [''b'', ''a'', ''b'', ''b'']"
proof -
  let ?w = "visitSchema sample_builtins sample_getArgumentValues sample_schema sample_visitors"
  let ?ds = "[\<lparr>dn_name = ''a'', dn_arguments = [(''max'', IntValue ''50'')]\<rparr>,
           \<lparr>dn_name = ''b'', dn_arguments = []\<rparr>,
           \<lparr>dn_name = ''c'', dn_arguments = []\<rparr>]"
  let ?c = "callVisitorMethods sample_env ''visitFieldDefinition'' (VField sample_people)
          (ObjectTypeDetails (GraphQLObjectType sample_Query)) sample_start"
  have h1: "fst ?c = Inr ()"
    by code_simp
  have h2: "directiveNodes (VField sample_people :: string visitable) = Some ?ds"
    by code_simp
  have f: "map dn_name (filter (responds sample_env ''visitFieldDefinition'') ?ds) = [''a'', ''b'']"
    by code_simp
  have "case fst ?w of Inr R \<Rightarrow> True | Inl e \<Rightarrow> False"
    by code_simp
  then obtain R where h3: "fst ?w = Inr R"
    by (cases "fst ?w") auto
  have k: "first_occurrences (keys sample_visitors) = [''a'', ''b'']"
    by code_simp
  have m: "''b'' \<in> set (keys sample_visitors)"
    by code_simp
  have n: "map name (constructed (snd ?w)) = [''b'', ''a'', ''b'', ''b'']"
    by code_simp
  note t = visitors_in_source_order [of sample_env "''visitFieldDefinition''" "VField sample_people"
      "ObjectTypeDetails (GraphQLObjectType sample_Query)" sample_start ?ds
      sample_builtins sample_getArgumentValues sample_schema sample_visitors R]
  from t [THEN conjunct1, THEN mp, OF conjI, OF h1 h2] obtain vs where
    vs: "trace (snd ?c) =
            trace sample_start @ GetVisitors ''visitFieldDefinition'' (VField sample_people) #
              map Construct vs @
              map (\<lambda>v. Dispatch ''visitFieldDefinition'' v (VField sample_people)
                          (ObjectTypeDetails (GraphQLObjectType sample_Query))) vs"
    and a2: "list_all2 (\<lambda>v dn. name v = dn_name dn \<and> visitedType v = VField sample_people \<and>
                          directive_args_of sample_env dn = Inr (args v))
              vs (filter (responds sample_env ''visitFieldDefinition'') ?ds)"
    by (elim exE conjE)
  from a2 have "list_all2 (\<lambda>v dn. name v = dn_name dn) vs
                  (filter (responds sample_env ''visitFieldDefinition'') ?ds)"
    by (rule list_all2_mono) simp
  then have "map name vs = map dn_name (filter (responds sample_env ''visitFieldDefinition'') ?ds)"
    by (simp add: list_all2_conv_all_nth list_eq_iff_nth_eq)
  with f have vn: "map name vs = [''a'', ''b'']"
    by simp
  note g = t [THEN conjunct2, THEN mp, OF h3]
  from g have g1: "dispatched (snd ?w) = constructed (snd ?w)"
    by (elim conjE)
  from g have g2: "keys R = [''a'', ''b'']"
    using k by (elim conjE) simp
  from g have "\<forall>n. js_get R n =
         (if n \<in> set (keys sample_visitors)
          then Some (filter (\<lambda>v. name v = n) (constructed (snd ?w))) else None)"
    by (elim conjE)
  then have g3: "js_get R ''b'' = Some (filter (\<lambda>v. name v = ''b'') (constructed (snd ?w)))"
    using m by simp
  from h1 h2 vs vn h3 g1 g2 g3 n show ?thesis
    by (intro conjI exI [of _ vs] exI [of _ R])
qed

theorem no_astNode_no_visitors_witness:
  "astNode (VNamedType (GraphQLScalarType sample_Date) :: string visitable) = None \<and>
   getVisitors sample_env (VNamedType (GraphQLScalarType sample_Date)) ''visitScalar'' sample_start =
     (Inr [], emit [GetVisitors ''visitScalar'' (VNamedType (GraphQLScalarType sample_Date))]
                sample_start) \<and>
   getDirectives sample_env (VNamedType (GraphQLScalarType sample_Date)) sample_start =
     (Inr [], sample_start) \<and>
   without_astNodes sample_programmatic \<and>
   (\<exists>R. fst (visitSchema sample_builtins sample_getArgumentValues sample_programmatic
                sample_visitors) = Inr R \<and>
        keys R = [''a'', ''b''] \<and> js_get R ''a'' = Some [] \<and> js_get R ''b'' = Some []) \<and>
   constructed (snd (visitSchema sample_builtins sample_getArgumentValues sample_programmatic
                       sample_visitors)) = [] \<and>
   dispatched (snd (visitSchema sample_builtins sample_getArgumentValues sample_programmatic
                      sample_visitors)) = []"
proof -
  let ?t = "VNamedType (GraphQLScalarType sample_Date) :: string visitable"
  let ?w = "visitSchema sample_builtins sample_getArgumentValues sample_programmatic sample_visitors"
  have h1: "astNode ?t = None"
    by code_simp
  have h2: "without_astNodes sample_programmatic"
    by code_simp
  have k: "first_occurrences (keys sample_visitors) = [''a'', ''b'']"
    by code_simp
  have m: "''a'' \<in> set (keys sample_visitors)" "''b'' \<in> set (keys sample_visitors)"
    by code_simp+
  note t = no_astNode_no_visitors [of ?t sample_env "''visitScalar''" sample_start
      sample_programmatic sample_builtins sample_getArgumentValues sample_visitors]
  note l = t [THEN conjunct1, THEN mp, OF disjI1, OF h1]
  note g = t [THEN conjunct2, THEN mp, OF h2]
  from g [THEN conjunct1] obtain R where
    R: "fst ?w = Inr R" "keys R = first_occurrences (keys sample_visitors)"
      "\<forall>n. js_get R n = (if n \<in> set (keys sample_visitors) then Some [] else None)"
    by (elim conjE exE)
  from R(3) m have "js_get R ''a'' = Some []" "js_get R ''b'' = Some []"
    by simp_all
  with R(1,2) k have e: "\<exists>R. fst ?w = Inr R \<and> keys R = [''a'', ''b''] \<and>
      js_get R ''a'' = Some [] \<and> js_get R ''b'' = Some []"
    by (intro exI [of _ R]) simp
  note c = g [THEN conjunct2, THEN conjunct1] and d = g [THEN conjunct2, THEN conjunct2]
  from h1 l [THEN conjunct1] l [THEN conjunct2] h2 e c d show ?thesis
    by (intro conjI)
qed

theorem unsupported_literal_aborts_walk_witness:
  "unsupported (ListValue [IntValue ''1'', Variable ''w'']) \<and>
   valueFromASTUntyped sample_builtins (ListValue [IntValue ''1'', Variable ''w'']) =
     Inl (Error ''Unexpected value kind: Variable'') \<and>
   fst (visitSchema sample_builtins sample_getArgumentValues sample_broken sample_visitors) =
     Inl (Error ''Unexpected value kind: Variable'') \<and>
   (\<exists>pre m t d. (m, t, d) \<in> set (calls_of_schema sample_broken) \<and>
          snd (resolve sample_broken_env t m) = Some (Error ''Unexpected value kind: Variable'') \<and>
          snd (visitSchema sample_builtins sample_getArgumentValues sample_broken sample_visitors) =
            pre @ GetVisitors m t # map Construct (fst (resolve sample_broken_env t m))) \<and>
   map name (constructed
     (snd (visitSchema sample_builtins sample_getArgumentValues sample_broken sample_visitors)))
     = [''b'', ''b''] \<and>
   map name (dispatched
     (snd (visitSchema sample_builtins sample_getArgumentValues sample_broken sample_visitors)))
     = [''b''] \<and>
   (''visitFieldDefinition'', VField sample_id, ObjectTypeDetails (GraphQLObjectType sample_Account))
     \<in> set (calls_of_schema sample_broken) \<and>
   directiveNodes (VField sample_id) =
     Some [\<lparr>dn_name = ''b'', dn_arguments = []\<rparr>,
           \<lparr>dn_name = ''a'', dn_arguments = [(''x'', Variable ''v'')]\<rparr>] \<and>
   responds sample_broken_env ''visitFieldDefinition''
     \<lparr>dn_name = ''a'', dn_arguments = [(''x'', Variable ''v'')]\<rparr> \<and>
   js_get (declaredDirectives sample_broken_env) ''a'' = None \<and>
   unsupported (Variable ''v'') \<and>
   (\<exists>e. fst (visitSchema sample_builtins sample_getArgumentValues sample_broken sample_visitors)
          = Inl e)"
proof -
  let ?w = "visitSchema sample_builtins sample_getArgumentValues sample_broken sample_visitors"
  let ?v = "ListValue [IntValue ''1'', Variable ''w'']"
  let ?dn = "\<lparr>dn_name = ''a'', dn_arguments = [(''x'', Variable ''v'')]\<rparr>"
  let ?ds = "[\<lparr>dn_name = ''b'', dn_arguments = []\<rparr>, ?dn]"
  let ?c = "(''visitFieldDefinition'', VField sample_id,
             ObjectTypeDetails (GraphQLObjectType sample_Account))"
  have h1: "unsupported ?v"
    by code_simp
  have h2: "fst ?w = Inl (Error ''Unexpected value kind: Variable'')"
    by code_simp
  have h3: "?c \<in> set (calls_of_schema sample_broken)"
    by code_simp
  have h4: "directiveNodes (VField sample_id :: string visitable) = Some ?ds"
    by code_simp
  have h5: "?dn \<in> set ?ds"
    by simp
  have h6: "responds sample_broken_env ''visitFieldDefinition'' ?dn"
    by code_simp
  have h7: "js_get (declaredDirectives sample_broken_env) (dn_name ?dn) = None"
    by code_simp
  have h8: "(''x'', Variable ''v'') \<in> set (dn_arguments ?dn)"
    by simp
  have h9: "unsupported (Variable ''v'')"
    by simp
  have c1: "map name (constructed (snd ?w)) = [''b'', ''b'']"
    by code_simp
  have c2: "map name (dispatched (snd ?w)) = [''b'']"
    by code_simp
  note t = unsupported_literal_aborts_walk [of ?v sample_builtins sample_getArgumentValues
      sample_broken sample_visitors "Error ''Unexpected value kind: Variable''"
      "''visitFieldDefinition''" "VField sample_id"
      "ObjectTypeDetails (GraphQLObjectType sample_Account)" ?ds ?dn "''x''" "Variable ''v''",
      folded sample_broken_env_def]
  note a = t [THEN conjunct1, THEN mp, OF h1]
  note b = t [THEN conjunct2, THEN conjunct1, THEN mp, OF h2, THEN conjunct1]
  have "?c \<in> set (calls_of_schema sample_broken) \<and> directiveNodes (VField sample_id) = Some ?ds \<and>
      ?dn \<in> set ?ds \<and> responds sample_broken_env ''visitFieldDefinition'' ?dn \<and>
      js_get (declaredDirectives sample_broken_env) (dn_name ?dn) = None \<and>
      (''x'', Variable ''v'') \<in> set (dn_arguments ?dn) \<and> unsupported (Variable ''v'')"
    using h3 h4 h5 h6 h7 h8 h9 by (intro conjI)
  note c = t [THEN conjunct2, THEN conjunct2, THEN mp, OF this]
  have h7': "js_get (declaredDirectives sample_broken_env) ''a'' = None"
    using h7 by simp
  from h1 a h2 b c1 c2 h3 h4 h6 h7' h9 c show ?thesis
    by (intro conjI)
qed

theorem walk_error_names_only_kind_witness:
  "fst (visitSchema sample_builtins sample_getArgumentValues sample_broken sample_visitors) =
     Inl (Error ''Unexpected value kind: Variable'') \<and>
   (Error ''Unexpected value kind: Variable'' =
      Error (''Unexpected value kind: '' @ kind (Variable ''v'')) \<or>
    (\<exists>decl dn. sample_getArgumentValues decl dn = Inl (Error ''Unexpected value kind: Variable'')))"
proof -
  have h: "fst (visitSchema sample_builtins sample_getArgumentValues sample_broken sample_visitors) =
     Inl (Error ''Unexpected value kind: Variable'')"
    by code_simp
  from h walk_error_names_only_kind [OF h, of "''v''"] show ?thesis
    by (rule conjI)
qed

text \<open>
  Claim C4 as stated does not hold: two walks that fail at different places, at the
  directive \<^verbatim>\<open>@a\<close> on the field \<^verbatim>\<open>id\<close> of \<^verbatim>\<open>Account\<close> and at the directive
  \<^verbatim>\<open>@b\<close> on the field \<^verbatim>\<open>f\<close> of \<^verbatim>\<open>Other\<close>, surface the same exception, whose
  message names neither a directive nor a node.
\<close>

theorem walk_error_names_only_kind_counterexample:
  "fst (visitSchema sample_builtins sample_getArgumentValues sample_broken sample_visitors) =
     Inl (Error ''Unexpected value kind: Variable'') \<and>
   fst (visitSchema sample_builtins sample_getArgumentValues sample_broken_too sample_visitors) =
     Inl (Error ''Unexpected value kind: Variable'') \<and>
   directive_args_of sample_broken_env \<lparr>dn_name = ''a'', dn_arguments = [(''x'', Variable ''v'')]\<rparr> =
     Inl (Error ''Unexpected value kind: Variable'') \<and>
   directive_args_of sample_broken_env
       \<lparr>dn_name = ''b'', dn_arguments = [(''y'', ListValue [IntValue ''1'', Variable ''w''])]\<rparr> =
     Inl (Error ''Unexpected value kind: Variable'')"
  by code_simp

theorem visitor_args_by_mode_witness:
  "fst (getVisitors sample_env (VField sample_people) ''visitFieldDefinition'' sample_start) =
     Inr [\<lparr>constructor = FieldVisitor, name = ''a'', args = [(''max'', JNumber ''50'')],
           visitedType = VField sample_people, schema = sample_schema\<rparr>,
          \<lparr>constructor = TypeVisitor, name = ''b'', args = [],
           visitedType = VField sample_people, schema = sample_schema\<rparr>] \<and>
   directiveNodes (VField sample_people) =
     Some [\<lparr>dn_name = ''a'', dn_arguments = [(''max'', IntValue ''50'')]\<rparr>,
           \<lparr>dn_name = ''b'', dn_arguments = []\<rparr>,
           \<lparr>dn_name = ''c'', dn_arguments = []\<rparr>] \<and>
   list_all2 (\<lambda>v dn. name v = dn_name dn \<and>
          (case js_get (declaredDirectives sample_env) (dn_name dn) of
             Some decl \<Rightarrow> getArgumentValues sample_env decl dn = Inr (args v)
           | None \<Rightarrow>
               keys (args v) = first_occurrences (map fst (dn_arguments dn)) \<and>
               (\<exists>xs. list_all2 (\<lambda>a x. valueFromASTUntyped (builtins sample_env) (snd a) = Inr x)
                        (dn_arguments dn) xs \<and>
                     (\<forall>k. js_get (args v) k = map_of (rev (zip (map fst (dn_arguments dn)) xs)) k))))
     [\<lparr>constructor = FieldVisitor, name = ''a'', args = [(''max'', JNumber ''50'')],
       visitedType = VField sample_people, schema = sample_schema\<rparr>,
      \<lparr>constructor = TypeVisitor, name = ''b'', args = [],
       visitedType = VField sample_people, schema = sample_schema\<rparr>]
     (filter (responds sample_env ''visitFieldDefinition'')
        [\<lparr>dn_name = ''a'', dn_arguments = [(''max'', IntValue ''50'')]\<rparr>,
         \<lparr>dn_name = ''b'', dn_arguments = []\<rparr>,
         \<lparr>dn_name = ''c'', dn_arguments = []\<rparr>]) \<and>
   getArgumentValues_spec (\<lambda>ty v. valueFromASTUntyped sample_builtins v) (\<lambda>ty. Inr None)
       sample_auth \<lparr>dn_name = ''auth'', dn_arguments = []\<rparr> =
     Inr [(''requires'', JString ''ADMIN'')] \<and>
   set (keys [(''requires'', JString ''ADMIN'' :: string js_value)])
     \<subseteq> arg_name ` set (directive_args sample_auth)"
proof -
  let ?vs = "[\<lparr>constructor = FieldVisitor, name = ''a'', args = [(''max'', JNumber ''50'')],
           visitedType = VField sample_people, schema = sample_schema\<rparr>,
          \<lparr>constructor = TypeVisitor, name = ''b'', args = [],
           visitedType = VField sample_people, schema = sample_schema\<rparr>]"
  let ?ds = "[\<lparr>dn_name = ''a'', dn_arguments = [(''max'', IntValue ''50'')]\<rparr>,
           \<lparr>dn_name = ''b'', dn_arguments = []\<rparr>,
           \<lparr>dn_name = ''c'', dn_arguments = []\<rparr>]"
  have h1: "fst (getVisitors sample_env (VField sample_people) ''visitFieldDefinition'' sample_start)
              = Inr ?vs"
    by code_simp
  have h2: "directiveNodes (VField sample_people :: string visitable) = Some ?ds"
    by code_simp
  have h3: "getArgumentValues_spec (\<lambda>ty v. valueFromASTUntyped sample_builtins v) (\<lambda>ty. Inr None)
       sample_auth \<lparr>dn_name = ''auth'', dn_arguments = []\<rparr> =
     Inr [(''requires'', JString ''ADMIN'')]"
    by code_simp
  note t = visitor_args_by_mode [of sample_env "VField sample_people" "''visitFieldDefinition''"
      sample_start ?vs ?ds "\<lambda>ty v. valueFromASTUntyped sample_builtins v" "\<lambda>ty. Inr None"
      sample_auth "\<lparr>dn_name = ''auth'', dn_arguments = []\<rparr>" "[(''requires'', JString ''ADMIN'')]"]
  note a = t [THEN conjunct1, THEN mp, OF conjI, OF h1 h2]
  note b = t [THEN conjunct2, THEN mp, OF h3, THEN conjunct1]
  from h1 h2 a h3 b show ?thesis
    by (intro conjI)
qed

text \<open>
  Claim C6 as stated does not hold with the argument coercion that the specification
  describes, when the type's rule omits a missing parameter: for
  \<^verbatim>\<open>directive @auth(requires: Role = ADMIN, reason: String)\<close> and the occurrence
  \<^verbatim>\<open>@auth\<close>, the visitor's arguments have the key \<^verbatim>\<open>requires\<close> alone, while the
  declared parameters are \<^verbatim>\<open>requires\<close> and \<^verbatim>\<open>reason\<close>.
\<close>

theorem visitor_args_by_mode_counterexample:
  "(case fst (visitSchema sample_builtins sample_getArgumentValues sample_declared
               [(''auth'', TypeVisitor)]) of
      Inr R \<Rightarrow> map (\<lambda>(n, vs). (n, map (\<lambda>v. keys (args v)) vs)) R = [(''auth'', [ [''requires''] ])]
    | Inl e \<Rightarrow> False) \<and>
   js_get (declaredDirectives (visitSchema_env sample_builtins sample_getArgumentValues
             sample_declared [(''auth'', TypeVisitor)])) ''auth'' = Some sample_auth \<and>
   map arg_name (directive_args sample_auth) = [''requires'', ''reason'']"
  by code_simp

section \<open>Claims about the construction of visitors\<close>

lemma getVisitors_only_overriding_classes:
  assumes "fst (getVisitors env t m st) = Inr vs" and "directiveNodes t = Some ds"
  shows "constructed (trace (snd (getVisitors env t m st))) = constructed (trace st) @ vs"
    and "list_all2 (\<lambda>v dn. name v = dn_name dn \<and>
             js_get (directiveVisitors env) (dn_name dn) = Some (constructor v) \<and>
             shouldCall (constructor v) m)
           vs (filter (\<lambda>dn. case js_get (directiveVisitors env) (dn_name dn) of
                               None \<Rightarrow> False
                             | Some visitorClass \<Rightarrow> shouldCall visitorClass m) ds)"
proof -
  from assms(1) have vs: "vs = fst (resolve env t m)" and ok: "snd (resolve env t m) = None"
    using getVisitors_Inr [of env t m st vs] by simp_all
  show "constructed (trace (snd (getVisitors env t m st))) = constructed (trace st) @ vs"
    by (simp add: getVisitors_trace constructed_append constructed_map_Construct vs)
  have "list_all2 (\<lambda>v dn. resolve_node env t m dn = Some (Inr v)) vs (filter (responds env m) ds)"
    unfolding vs using assms(2) ok by (rule resolve_all2)
  then have "list_all2 (\<lambda>v dn. name v = dn_name dn \<and>
             js_get (directiveVisitors env) (dn_name dn) = Some (constructor v) \<and>
             shouldCall (constructor v) m) vs (filter (responds env m) ds)"
    by (rule list_all2_mono) (auto dest: resolve_node_Inr)
  moreover have "responds env m = (\<lambda>dn. case js_get (directiveVisitors env) (dn_name dn) of
                               None \<Rightarrow> False
                             | Some visitorClass \<Rightarrow> shouldCall visitorClass m)"
    by (intro ext) (simp add: responds_def)
  ultimately show "list_all2 (\<lambda>v dn. name v = dn_name dn \<and>
             js_get (directiveVisitors env) (dn_name dn) = Some (constructor v) \<and>
             shouldCall (constructor v) m)
           vs (filter (\<lambda>dn. case js_get (directiveVisitors env) (dn_name dn) of
                               None \<Rightarrow> False
                             | Some visitorClass \<Rightarrow> shouldCall visitorClass m) ds)"
    by simp
qed

text \<open>
  Claim C1. \<^verbatim>\<open>getVisitors\<close> of \<^verbatim>\<open>src/directives.ts\<close> constructs one visitor for each
  directive node whose class overrides the method and none for the others
  (\<open>getVisitors_only_overriding_classes\<close>). \<^verbatim>\<open>getDirectives\<close> of the second copy of
  the class does not ask \<^verbatim>\<open>shouldCall\<close>: on \<^verbatim>\<open>type Query @a @b\<close>, where the class of
  \<^verbatim>\<open>a\<close> overrides \<^verbatim>\<open>visitFieldDefinition\<close> only, it constructs a visitor of that
  class for the object type, on which \<^verbatim>\<open>visit\<close> then calls the inherited empty
  \<^verbatim>\<open>visitObject\<close>; \<^verbatim>\<open>getVisitors\<close> constructs the visitor of \<^verbatim>\<open>b\<close> alone.
\<close>

theorem getDirectives_ignores_shouldCall:
  "\<not> shouldCall FieldVisitor ''visitObject'' \<and>
   js_get (directiveVisitors sample_env) ''a'' = Some FieldVisitor \<and>
   map (\<lambda>v. (name v, constructor v))
     (case fst (getDirectives sample_env (VNamedType (GraphQLObjectType sample_Query)) sample_start) of
        Inr directiveInstances \<Rightarrow> directiveInstances | Inl e \<Rightarrow> []) =
     [(''a'', FieldVisitor), (''b'', TypeVisitor)] \<and>
   map (\<lambda>v. (name v, constructor v))
     (constructed (trace (snd (getDirectives sample_env (VNamedType (GraphQLObjectType sample_Query))
                                 sample_start)))) =
     [(''a'', FieldVisitor), (''b'', TypeVisitor)] \<and>
   map (\<lambda>v. (name v, constructor v))
     (constructed (trace (snd (getVisitors sample_env (VNamedType (GraphQLObjectType sample_Query))
                                 ''visitObject'' sample_start)))) =
     [(''b'', TypeVisitor)]"
  by code_simp

end
